theory Spec2Isabelle
  imports Main "HOL-Library.Word"
begin

section \<open>Python values and errors\<close>

text \<open>
  The backend snippets of the repository are Python. A \<open>bytes\<close> object is a list of
  8-bit words, a \<open>str\<close> is a list of code points (natural numbers), and an exception is
  a value of \<open>py_error\<close> returned on the left of a sum.
\<close>

type_synonym byte = "8 word"
type_synonym unistr = "nat list"

datatype py_error =
    ValueError string
  | TypeError
  | UnicodeDecodeError string

datatype py_value =
    PyNone
  | PyBytes "byte list"
  | PyStr unistr
  | PyInt int

section \<open>EmailClient construction\<close>

text \<open>
  \<^verbatim>\<open>
  class EmailClient:
      def __init__(self):
          self.gmail_user = os.getenv('GMAIL_USER')
          self.gmail_app_pass = os.getenv('GMAIL_APP_PASS')
          self.processed_file = 'processed_messages.json'
          if not self.gmail_user or not self.gmail_app_pass:
              raise ValueError("GMAIL_USER and GMAIL_APP_PASS must be set in environment variables")
  \<close>
  The process environment is a dictionary from names to strings; \<open>os.getenv\<close> returns
  \<open>None\<close> for a name that is not set. The constructor returns its result together with
  the list of network operations it performed, so that "contacts no mail server" is a
  statement about that list.
\<close>

type_synonym environ = "string \<rightharpoonup> string"

definition getenv :: "environ \<Rightarrow> string \<Rightarrow> string option" where
  "getenv env name = env name"

text \<open>Python's truth value of an \<open>Optional[str]\<close>: \<open>None\<close> and \<open>""\<close> are false.\<close>

fun truthy :: "string option \<Rightarrow> bool" where
  "truthy None = False"
| "truthy (Some s) = (s \<noteq> [])"

record EmailClient =
  gmail_user :: "string option"
  gmail_app_pass :: "string option"
  processed_file :: string

datatype net_op = ImapConnect string | ImapLogin string | SmtpConnect string

definition EmailClient_init :: "environ \<Rightarrow> (py_error + EmailClient) \<times> net_op list" where
  "EmailClient_init env =
     (let self = \<lparr> gmail_user = getenv env ''GMAIL_USER'',
                    gmail_app_pass = getenv env ''GMAIL_APP_PASS'',
                    processed_file = ''processed_messages.json'' \<rparr>
      in if \<not> truthy (gmail_user self) \<or> \<not> truthy (gmail_app_pass self)
         then (Inl (ValueError ''GMAIL_USER and GMAIL_APP_PASS must be set in environment variables''), [])
         else (Inr self, []))"

section \<open>UTF-8 decoding with an error handler\<close>

text \<open>
  \<open>clean_str\<close> calls \<open>s.decode("utf-8", errors="replace")\<close>. The decoder belongs to the
  Python runtime, not to the repository; it is written out here after the runtime's
  decoder: the well-formed byte sequences are those of RFC 3629 (no overlong forms, no
  surrogates, nothing above U+10FFFF), an ill-formed sequence is reported with the length
  of its longest well-formed prefix, and an input that ends inside a sequence is reported
  up to the end of the input. The handler \<open>strict\<close> raises, \<open>replace\<close> writes
  U+FFFD for each reported error and goes on behind it, \<open>ignore\<close> only goes on.
\<close>

datatype error_handler = Strict | Replace | Ignore

datatype step_result =
    Decoded nat nat
  | InvalidStart
  | InvalidContinuation nat
  | UnexpectedEnd

definition is_continuation :: "nat \<Rightarrow> bool" where
  "is_continuation b = (128 \<le> b \<and> b < 192)"

text \<open>
  One step of the decoder at the head of the remaining input: the code point and the
  number of bytes read, or the kind of error (for an invalid continuation byte, the
  number of bytes before it). The masks \<open>ch & 0x1f\<close>, \<open>ch & 0x0f\<close>, \<open>ch & 0x07\<close> and
  \<open>ch & 0x3f\<close> are remainders modulo 32, 16, 8 and 64.
\<close>

fun utf8_step :: "byte list \<Rightarrow> step_result" where
  "utf8_step [] = UnexpectedEnd"
| "utf8_step (b0 # rest) =
     (let ch = unat b0 in
      if ch < 128 then Decoded ch 1
      else if ch < 194 then InvalidStart
      else if ch < 224 then
        (case rest of
           [] \<Rightarrow> UnexpectedEnd
         | b1 # _ \<Rightarrow>
             let ch2 = unat b1 in
             if \<not> is_continuation ch2 then InvalidContinuation 1
             else Decoded ((ch mod 32) * 64 + ch2 mod 64) 2)
      else if ch < 240 then
        (case rest of
           [] \<Rightarrow> UnexpectedEnd
         | b1 # rest2 \<Rightarrow>
             let ch2 = unat b1 in
             if \<not> is_continuation ch2 \<or> (if ch2 < 160 then ch = 224 else ch = 237)
             then InvalidContinuation 1
             else
               (case rest2 of
                  [] \<Rightarrow> UnexpectedEnd
                | b2 # _ \<Rightarrow>
                    let ch3 = unat b2 in
                    if \<not> is_continuation ch3 then InvalidContinuation 2
                    else Decoded ((ch mod 16) * 4096 + (ch2 mod 64) * 64 + ch3 mod 64) 3))
      else if ch < 245 then
        (case rest of
           [] \<Rightarrow> UnexpectedEnd
         | b1 # rest2 \<Rightarrow>
             let ch2 = unat b1 in
             if \<not> is_continuation ch2 \<or> (if ch2 < 144 then ch = 240 else ch = 244)
             then InvalidContinuation 1
             else
               (case rest2 of
                  [] \<Rightarrow> UnexpectedEnd
                | b2 # rest3 \<Rightarrow>
                    let ch3 = unat b2 in
                    if \<not> is_continuation ch3 then InvalidContinuation 2
                    else
                      (case rest3 of
                         [] \<Rightarrow> UnexpectedEnd
                       | b3 # _ \<Rightarrow>
                           let ch4 = unat b3 in
                           if \<not> is_continuation ch4 then InvalidContinuation 3
                           else Decoded ((ch mod 8) * 262144 + (ch2 mod 64) * 4096
                                          + (ch3 mod 64) * 64 + ch4 mod 64) 4)))
      else InvalidStart)"

definition REPLACEMENT_CHARACTER :: nat where
  "REPLACEMENT_CHARACTER = 65533"

text \<open>What the error handler does with an error, given the decoding of what follows it.\<close>

fun on_error :: "error_handler \<Rightarrow> string \<Rightarrow> py_error + unistr \<Rightarrow> py_error + unistr" where
  "on_error Strict msg rest = Inl (UnicodeDecodeError msg)"
| "on_error Replace msg rest =
     (case rest of Inl e \<Rightarrow> Inl e | Inr t \<Rightarrow> Inr (REPLACEMENT_CHARACTER # t))"
| "on_error Ignore msg rest = rest"

fun utf8_decode :: "error_handler \<Rightarrow> byte list \<Rightarrow> py_error + unistr" where
  "utf8_decode h [] = Inr []"
| "utf8_decode h (b # bs) =
     (case utf8_step (b # bs) of
        Decoded c n \<Rightarrow>
          (case utf8_decode h (drop (n - 1) bs) of
             Inl e \<Rightarrow> Inl e
           | Inr t \<Rightarrow> Inr (c # t))
      | InvalidStart \<Rightarrow> on_error h ''invalid start byte'' (utf8_decode h bs)
      | InvalidContinuation k \<Rightarrow>
          on_error h ''invalid continuation byte'' (utf8_decode h (drop (k - 1) bs))
      | UnexpectedEnd \<Rightarrow> on_error h ''unexpected end of data'' (Inr []))"

text \<open>
  The encoder of the runtime (\<open>str.encode("utf-8")\<close>), written out after RFC 3629. It
  serves to state that the decoder reads well-formed UTF-8 back, and that a text has no
  byte sequence in its encoding that a strict decoder would refuse.
\<close>

definition utf8_encode_cp :: "nat \<Rightarrow> nat list" where
  "utf8_encode_cp c =
     (if c < 128 then [c]
      else if c < 2048 then [192 + c div 64, 128 + c mod 64]
      else if c < 65536 then [224 + c div 4096, 128 + (c div 64) mod 64, 128 + c mod 64]
      else [240 + c div 262144, 128 + (c div 4096) mod 64, 128 + (c div 64) mod 64, 128 + c mod 64])"

definition utf8_encode :: "unistr \<Rightarrow> byte list" where
  "utf8_encode s = map of_nat (concat (map utf8_encode_cp s))"

section \<open>Unicode normalization\<close>

text \<open>
  \<open>clean_str\<close> calls \<open>unicodedata.normalize("NFKC", s)\<close>. The function and the Unicode
  Character Database it reads belong to the Python runtime. The database is a parameter
  here: for every code point its full decomposition (canonical, or compatibility when
  the flag is set; the code point itself when it has none), its canonical combining class,
  and the primary composite of a pair of code points. The algorithm over the database is
  the one of Unicode Standard Annex 15: decompose, put combining marks into canonical
  order, and for the forms NFC and NFKC compose canonically.
\<close>

record ucd =
  full_decomposition :: "bool \<Rightarrow> nat \<Rightarrow> nat list"
  combining :: "nat \<Rightarrow> nat"
  primary_composite :: "nat \<Rightarrow> nat \<Rightarrow> nat option"

definition decompose :: "ucd \<Rightarrow> bool \<Rightarrow> unistr \<Rightarrow> unistr" where
  "decompose u k s = concat (map (full_decomposition u k) s)"

text \<open>
  Canonical ordering: a combining mark moves left over the marks of a greater class
  that stand before it. \<open>reorder_insert\<close> works on the reversed prefix.
\<close>

fun reorder_insert :: "ucd \<Rightarrow> nat \<Rightarrow> unistr \<Rightarrow> unistr" where
  "reorder_insert u c [] = [c]"
| "reorder_insert u c (p # ps) =
     (if combining u c \<noteq> 0 \<and> combining u c < combining u p
      then p # reorder_insert u c ps
      else c # p # ps)"

definition canonical_order :: "ucd \<Rightarrow> unistr \<Rightarrow> unistr" where
  "canonical_order u s = rev (foldl (\<lambda>acc c. reorder_insert u c acc) [] s)"

text \<open>
  Canonical composition. \<open>pre\<close> is the finished output before the last starter
  (reversed), \<open>st\<close> the last starter, \<open>marks\<close> the marks kept behind it (reversed) and
  \<open>lc\<close> the class of the last character kept. A character combines with the starter when
  a primary composite exists and nothing kept between them blocks it.
\<close>

fun compose_loop :: "ucd \<Rightarrow> unistr \<Rightarrow> nat \<Rightarrow> unistr \<Rightarrow> nat \<Rightarrow> unistr \<Rightarrow> unistr" where
  "compose_loop u pre st marks lc [] = rev pre @ st # rev marks"
| "compose_loop u pre st marks lc (c # cs) =
     (let cc = combining u c;
          composite = (if lc < cc \<or> lc = 0 then primary_composite u st c else None)
      in case composite of
           Some p \<Rightarrow> compose_loop u pre p marks lc cs
         | None \<Rightarrow>
             if cc = 0 then compose_loop u (marks @ st # pre) c [] 0 cs
             else compose_loop u pre st (c # marks) cc cs)"

definition compose :: "ucd \<Rightarrow> unistr \<Rightarrow> unistr" where
  "compose u s =
     (case s of
        [] \<Rightarrow> []
      | c # cs \<Rightarrow> compose_loop u [] c [] (if combining u c = 0 then 0 else 256) cs)"

text \<open>
  \<open>unicodedata.normalize(form, unistr)\<close>: a \<open>TypeError\<close> when the second argument is
  not a \<open>str\<close>, a \<open>ValueError\<close> for a form it does not know.
\<close>

definition unicodedata_normalize :: "ucd \<Rightarrow> string \<Rightarrow> py_value \<Rightarrow> py_error + unistr" where
  "unicodedata_normalize u form v =
     (case v of
        PyStr s \<Rightarrow>
          if form = ''NFC'' then Inr (compose u (canonical_order u (decompose u False s)))
          else if form = ''NFKC'' then Inr (compose u (canonical_order u (decompose u True s)))
          else if form = ''NFD'' then Inr (canonical_order u (decompose u False s))
          else if form = ''NFKD'' then Inr (canonical_order u (decompose u True s))
          else Inl (ValueError ''invalid normalization form'')
      | _ \<Rightarrow> Inl TypeError)"

section \<open>clean\_str\<close>

text \<open>
  \<^verbatim>\<open>
  def clean_str(s):
      """Convert any bytes/str to safe, printable UTF-8."""
      if s is None:
          return ""
      if isinstance(s, bytes):
          s = s.decode("utf-8", errors="replace")
      # Normalize weird spaces, accents, etc.
      s = unicodedata.normalize("NFKC", s).replace("\xa0", " ")
      return s
  \<close>
  \<open>str.replace\<close> with one-character arguments replaces every occurrence of the
  character.
\<close>

definition str_replace :: "unistr \<Rightarrow> nat \<Rightarrow> nat \<Rightarrow> unistr" where
  "str_replace s old new = map (\<lambda>c. if c = old then new else c) s"

definition NO_BREAK_SPACE :: nat where
  "NO_BREAK_SPACE = 160"

definition SPACE :: nat where
  "SPACE = 32"

definition clean_str :: "ucd \<Rightarrow> py_value \<Rightarrow> py_error + unistr" where
  "clean_str u s =
     (case s of
        PyNone \<Rightarrow> Inr []
      | _ \<Rightarrow>
          (case (case s of
                   PyBytes b \<Rightarrow>
                     (case utf8_decode Replace b of Inl e \<Rightarrow> Inl e | Inr d \<Rightarrow> Inr (PyStr d))
                 | _ \<Rightarrow> Inr s) of
             Inl e \<Rightarrow> Inl e
           | Inr s1 \<Rightarrow>
               (case unicodedata_normalize u ''NFKC'' s1 of
                  Inl e \<Rightarrow> Inl e
                | Inr n \<Rightarrow> Inr (str_replace n NO_BREAK_SPACE SPACE))))"

text \<open>
  A Unicode scalar value: a code point up to U+10FFFF that is not a surrogate. A text
  of scalar values is exactly a text that has a UTF-8 encoding.
\<close>

definition scalar_value :: "nat \<Rightarrow> bool" where
  "scalar_value c = (c < 55296 \<or> (57344 \<le> c \<and> c < 1114112))"

text \<open>
  Decoding with replacement as the specification words it ("unknown/invalid bytes are
  replaced, never fatal"), stated without the decoder. A byte sequence is read from left
  to right: where the UTF-8 encoding of a scalar value starts, the text holds that scalar
  value; where none starts, the byte there and up to two continuation bytes after it
  stand in the text as one U+FFFD. So no byte is dropped silently, and no well-formed
  sequence is replaced.
\<close>

inductive utf8_replaced :: "byte list \<Rightarrow> unistr \<Rightarrow> bool" where
  utf8_replaced_end: "utf8_replaced [] []"
| utf8_replaced_scalar:
    "scalar_value c \<Longrightarrow> utf8_replaced rest d \<Longrightarrow> utf8_replaced (utf8_encode [c] @ rest) (c # d)"
| utf8_replaced_ill_formed:
    "\<not> (\<exists>c tail. scalar_value c \<and> b # conts @ rest = utf8_encode [c] @ tail)
     \<Longrightarrow> length conts \<le> 2
     \<Longrightarrow> list_all (\<lambda>x. is_continuation (unat x)) conts
     \<Longrightarrow> utf8_replaced rest d
     \<Longrightarrow> utf8_replaced (b # conts @ rest) (REPLACEMENT_CHARACTER # d)"

text \<open>
  What the claims about normalization need of the database: decompositions and
  composites of scalar values are scalar values.
\<close>

definition ucd_scalar :: "ucd \<Rightarrow> bool" where
  "ucd_scalar u =
     ((\<forall>k c. scalar_value c \<longrightarrow> list_all scalar_value (full_decomposition u k c)) \<and>
      (\<forall>a b p. primary_composite u a b = Some p \<longrightarrow> scalar_value p))"

text \<open>
  An excerpt of the Unicode Character Database with the entries of the characters the
  examples below use: U+00E9 (e with acute, canonically U+0065 U+0301), the spaces
  U+00A0, U+2000..U+200A, U+202F, U+205F and U+3000 (compatibility equivalent to U+0020;
  U+2000 and U+2001 canonically equivalent to U+2002 and U+2003), the ligature U+FB01
  (compatibility equivalent to U+0066 U+0069) and the combining acute accent U+0301 of
  class 230. Every other code point stands in it with no decomposition, class 0 and no
  composite.
\<close>

definition exotic_space :: "nat \<Rightarrow> bool" where
  "exotic_space c = ((8192 \<le> c \<and> c \<le> 8202) \<or> c = 8239 \<or> c = 8287 \<or> c = 12288)"

definition ucd_excerpt :: ucd where
  "ucd_excerpt =
     \<lparr> full_decomposition = (\<lambda>k c.
          if c = 233 then [101, 769]
          else if k \<and> (c = 160 \<or> exotic_space c) then [32]
          else if c = 8192 then [8194]
          else if c = 8193 then [8195]
          else if k \<and> c = 64257 then [102, 105]
          else [c]),
        combining = (\<lambda>c. if c = 769 then 230 else 0),
        primary_composite = (\<lambda>a b. if a = 101 \<and> b = 769 then Some 233 else None) \<rparr>"

text \<open>
  The normal form as the specification words it: non-breaking and exotic whitespace
  collapsed to plain spaces, then canonical composition (the form NFC).
\<close>

definition collapse_whitespace :: "unistr \<Rightarrow> unistr" where
  "collapse_whitespace s =
     map (\<lambda>c. if c = NO_BREAK_SPACE \<or> exotic_space c then SPACE else c) s"

definition spec_normal_form :: "ucd \<Rightarrow> unistr \<Rightarrow> py_error + unistr" where
  "spec_normal_form u s = unicodedata_normalize u ''NFC'' (PyStr (collapse_whitespace s))"

text \<open>
  What the Unicode Character Database says about these spaces: each of them, like U+0020
  itself, has the full compatibility decomposition U+0020; no full compatibility
  decomposition holds U+00A0 (it is decomposable itself), and U+00A0 is no primary
  composite (it has no canonical decomposition).
\<close>

definition ucd_spaces :: "ucd \<Rightarrow> bool" where
  "ucd_spaces u =
     ((\<forall>c. c = SPACE \<or> c = NO_BREAK_SPACE \<or> exotic_space c
            \<longrightarrow> full_decomposition u True c = [SPACE]) \<and>
      (\<forall>c. NO_BREAK_SPACE \<notin> set (full_decomposition u True c)) \<and>
      (\<forall>a b. primary_composite u a b \<noteq> Some NO_BREAK_SPACE))"

section \<open>The processing ledger\<close>

text \<open>
  The document of the e-mail client describes the deduplication (a JSON file of processed
  message ids, kept across restarts) but the repository's files hold no code for it, nor
  for the polling loop beyond its outline. The definitions of this section and the next
  two follow the specification's sections 3, 4, 5 and 7.
\<close>

type_synonym msg_id = string
type_synonym timestamp = nat

text \<open>
  Modelled from the spec: the ledger's store is missing from the sources. "ProcessedRecord:
  message identifier \<rightarrow> processed timestamp."
\<close>

type_synonym ProcessedLedger = "msg_id \<rightharpoonup> timestamp"

text \<open>
  Modelled from the spec: \<open>ProcessedLedger.isProcessed\<close> is missing from the sources.
  "\<open>isProcessed(id) -> bool\<close>."
\<close>

definition isProcessed :: "ProcessedLedger \<Rightarrow> msg_id \<Rightarrow> bool" where
  "isProcessed l i = (l i \<noteq> None)"

text \<open>
  Modelled from the spec: \<open>ProcessedLedger.commit\<close> is missing from the sources.
  "\<open>commit(id, timestamp)\<close> -- idempotent; committing an already-present id is a no-op,
  not an error", and "insertion is the only mutation".
\<close>

definition commit :: "ProcessedLedger \<Rightarrow> msg_id \<Rightarrow> timestamp \<Rightarrow> ProcessedLedger" where
  "commit l i ts = (if isProcessed l i then l else l(i \<mapsto> ts))"

section \<open>The retrieval index\<close>

text \<open>
  Modelled from the spec: the chunk record is missing from the sources. "DocumentChunk:
  chunk text, embedding vector, metadata (title, source, topics, URL, ingestion timestamp,
  owning document id)." The type of embedding vectors is a parameter.
\<close>

record 'v DocumentChunk =
  chunk_text :: string
  embedding :: 'v
  title :: string
  source :: string
  topics :: "string list"
  url :: string
  ingested_at :: timestamp
  document_id :: string

text \<open>
  Modelled from the spec: the document payload of the ingestion surface is missing from
  the sources; its fields are the metadata a chunk inherits.
\<close>

record Document =
  doc_id :: string
  doc_title :: string
  doc_source :: string
  doc_url :: string
  doc_text :: string

text \<open>
  Modelled from the spec: the index is missing from the sources. It owns its chunks and
  "has a configurable maximum size"; the deployment notes name the setting
  \<open>rag_max_index_size\<close> and its default 10000.
\<close>

record 'v RetrievalIndex =
  chunks :: "'v DocumentChunk list"
  rag_max_index_size :: nat

text \<open>
  Modelled from the spec: the configuration of the index is missing from the sources; the
  default is the one the deployment notes give ("\<open>rag_max_index_size\<close> setting (default:
  10000)").
\<close>

definition DEFAULT_RAG_MAX_INDEX_SIZE :: nat where
  "DEFAULT_RAG_MAX_INDEX_SIZE = 10000"

text \<open>
  Modelled from the spec: the text splitter and the embedding service are missing from
  the sources. "All embedding calls are isolated behind a capability interface"; the
  splitter ("bounded-size overlapping chunks") is taken the same way.
\<close>

record 'v index_capabilities =
  split :: "string \<Rightarrow> string list"
  embed :: "string \<Rightarrow> 'v"

text \<open>Modelled from the spec: the failure of an ingestion is missing from the sources ("fails closed").\<close>

datatype ingest_error = IndexFull

text \<open>
  Modelled from the spec: the construction of a chunk is missing from the sources.
  "Embeds each, stores with metadata."
\<close>

definition make_chunk ::
  "'v index_capabilities \<Rightarrow> timestamp \<Rightarrow> Document \<Rightarrow> string list \<Rightarrow> string \<Rightarrow> 'v DocumentChunk" where
  "make_chunk caps now doc tps txt =
     \<lparr> chunk_text = txt, embedding = embed caps txt, title = doc_title doc,
       source = doc_source doc, topics = tps, url = doc_url doc, ingested_at = now,
       document_id = doc_id doc \<rparr>"

text \<open>
  Modelled from the spec: \<open>RetrievalIndex.ingest\<close> is missing from the sources.
  "\<open>ingest(document, topics) -> chunk ids\<close>: splits document text into bounded-size
  overlapping chunks, embeds each, stores with metadata; operation is additive only."
  "Ingesting a document chunk when the index is at its configured maximum size fails the
  ingestion without mutating the index" is the first test, "when exceeded, ingestion fails
  closed (rejects new chunks) rather than silently evicting existing ones" the second. The
  ids of the new chunks are their positions in the index.
\<close>

definition ingest ::
  "'v index_capabilities \<Rightarrow> timestamp \<Rightarrow> 'v RetrievalIndex \<Rightarrow> Document \<Rightarrow> string list
     \<Rightarrow> (ingest_error + nat list) \<times> 'v RetrievalIndex" where
  "ingest caps now idx doc tps =
     (let texts = split caps (doc_text doc);
          n = length (chunks idx)
      in if rag_max_index_size idx \<le> n then (Inl IndexFull, idx)
         else if rag_max_index_size idx < n + length texts then (Inl IndexFull, idx)
         else (Inr [n ..< n + length texts],
               idx\<lparr> chunks := chunks idx @ map (make_chunk caps now doc tps) texts \<rparr>))"

section \<open>The orchestrator\<close>

text \<open>
  Modelled from the spec: a fetched message is missing from the sources. The identifier
  is "protocol-assigned, unique per mailbox folder": it comes with the fetch, before any
  parsing.
\<close>

record raw_message =
  raw_id :: msg_id
  raw_bytes :: "byte list"

text \<open>
  Modelled from the spec: the parsed record is missing from the sources. "InboxMessage:
  identifier, sender address, sender display name, subject, body text, attachment count,
  link count, received timestamp."
\<close>

record InboxMessage =
  message_id :: msg_id
  sender_address :: string
  sender_name :: string
  subject :: string
  body :: string
  attachment_count :: nat
  link_count :: nat
  received :: timestamp

text \<open>
  Modelled from the spec: the evaluator's result is missing from the sources.
  "EvaluationDecision: boolean needs retrieval, derived query string,
  confidence/rationale."
\<close>

record EvaluationDecision =
  needs_retrieval :: bool
  query :: string
  rationale :: string

text \<open>
  Modelled from the spec: a conversation turn is missing from the sources.
  "ConversationTurn: direction (incoming/outgoing), content, timestamp."
\<close>

datatype direction = Incoming | Outgoing

record ConversationTurn =
  turn_direction :: direction
  turn_content :: string
  turn_at :: timestamp

text \<open>
  Modelled from the spec: the failures of the pipeline's stages are missing from the
  sources. Section 7 names them: a parse, evaluate or generate error and a send error are
  per message; an authentication error of the transport and a failure of a ledger write
  are fatal to the cycle.
\<close>

datatype pipeline_error =
    ParseError
  | EvaluationError
  | GenerationError
  | SendError
  | AuthenticationError
  | LedgerWriteError

text \<open>
  Modelled from the spec: the collaborators of the orchestrator are missing from the
  sources. Their contracts are those of sections 4.1, 4.3, 4.4, 4.5 and 4.6; what they
  answer is left open, so a theorem holds for every parser, evaluator, index, generator,
  transport and persistence layer. A retrieval that answers \<open>None\<close> is an index that is
  unavailable. \<open>persist i ts\<close> is the durable write of the entry of \<open>i\<close> at \<open>ts\<close> that a
  commit asks of the persistence layer (section 4.2); it answers \<open>False\<close> when the write
  fails, and the write being atomic (section 5) the ledger is then as it was.
\<close>

record 'v capabilities =
  parse :: "raw_message \<Rightarrow> pipeline_error + InboxMessage"
  evaluate :: "InboxMessage \<Rightarrow> pipeline_error + EvaluationDecision"
  search :: "string \<Rightarrow> nat \<Rightarrow> 'v DocumentChunk list option"
  turns :: "string \<Rightarrow> ConversationTurn list"
  generate :: "InboxMessage \<Rightarrow> ConversationTurn list \<Rightarrow> 'v DocumentChunk list \<Rightarrow> pipeline_error + string"
  send :: "string \<Rightarrow> string \<Rightarrow> string \<Rightarrow> pipeline_error + unit"
  persist :: "msg_id \<Rightarrow> timestamp \<Rightarrow> bool"

text \<open>
  Modelled from the spec: what the orchestrator does on the mailbox and the ledger is
  missing from the sources; an event records each operation, in the order of execution.
\<close>

datatype event =
    Sent msg_id
  | Committed msg_id
  | MarkRead msg_id
  | Skipped msg_id pipeline_error

text \<open>
  Modelled from the spec: the state the orchestrator works on is missing from the sources:
  the ledger and the record of what has been done.
\<close>

record pipeline_state =
  ledger :: ProcessedLedger
  events :: "event list"

text \<open>
  Modelled from the spec: the number of chunks asked for is missing from the sources; the
  README retrieves with \<open>top_k=5\<close>.
\<close>

definition TOP_K :: nat where
  "TOP_K = 5"

text \<open>
  Modelled from the spec: the retrieval step is missing from the sources. Retrieval
  happens when the evaluator asks for it; "retrieval-index unavailable: degrades to
  non-augmented reply rather than failing the message".
\<close>

definition retrieve :: "'v capabilities \<Rightarrow> EvaluationDecision \<Rightarrow> 'v DocumentChunk list" where
  "retrieve caps d =
     (if needs_retrieval d
      then (case search caps (query d) TOP_K of None \<Rightarrow> [] | Some cs \<Rightarrow> cs)
      else [])"

text \<open>
  Modelled from the spec: the evaluate, retrieve and generate stages are missing from
  the sources. "ContentEvaluator \<rightarrow> (RetrievalIndex) \<rightarrow> ReplyGenerator", the generator
  reading "the message, retrieved context, and prior conversation turns".
\<close>

definition build_reply :: "'v capabilities \<Rightarrow> InboxMessage \<Rightarrow> pipeline_error + string" where
  "build_reply caps m =
     (case evaluate caps m of
        Inl e \<Rightarrow> Inl e
      | Inr d \<Rightarrow> generate caps m (turns caps (sender_address m)) (retrieve caps d))"

text \<open>Modelled from the spec: the skip of a message is missing from the sources ("logs and skips").\<close>

definition skip :: "pipeline_state \<Rightarrow> msg_id \<Rightarrow> pipeline_error \<Rightarrow> pipeline_state" where
  "skip st i e = st\<lparr> events := events st @ [Skipped i e] \<rparr>"

text \<open>
  Modelled from the spec: the processing of one message is missing from the sources.
  "MessageParser \<rightarrow> ProcessedLedger.check \<rightarrow> ContentEvaluator \<rightarrow> (RetrievalIndex) \<rightarrow>
  ReplyGenerator \<rightarrow> MailTransport.send \<rightarrow> ProcessedLedger.commit", the commit before the
  message is marked read; a message the ledger knows "is simply marked read and skipped";
  a failure of a stage is "logged and the batch continues"; "only
  transport-authentication failures or ledger-write failures abort the entire cycle". A
  ledger write that fails comes after the reply has been sent: the ledger stays as it
  was, the message is not marked read, and the cycle is "retried on the next schedule".
  The second component is the fatal error, if any.
\<close>

definition process_message ::
  "'v capabilities \<Rightarrow> timestamp \<Rightarrow> pipeline_state \<Rightarrow> raw_message
     \<Rightarrow> pipeline_state \<times> pipeline_error option" where
  "process_message caps now st raw =
     (let i = raw_id raw in
      case parse caps raw of
        Inl e \<Rightarrow> (skip st i e, None)
      | Inr m \<Rightarrow>
          if isProcessed (ledger st) i
          then (st\<lparr> events := events st @ [MarkRead i] \<rparr>, None)
          else
            (case build_reply caps m of
               Inl e \<Rightarrow> (skip st i e, None)
             | Inr reply \<Rightarrow>
                 (case send caps (sender_address m) (''Re: '' @ subject m) reply of
                    Inl e \<Rightarrow>
                      (skip st i e, if e = AuthenticationError then Some e else None)
                  | Inr _ \<Rightarrow>
                      if persist caps i now
                      then (st\<lparr> ledger := commit (ledger st) i now,
                                events := events st @ [Sent i, Committed i, MarkRead i] \<rparr>,
                            None)
                      else (st\<lparr> events := events st @ [Sent i] \<rparr>,
                            Some LedgerWriteError))))"

text \<open>Modelled from the spec: the outcome of a cycle ("last run outcome") is missing from the sources.\<close>

datatype cycle_outcome = Completed | Aborted pipeline_error

text \<open>
  Modelled from the spec: the cycle over a batch is missing from the sources (its outline
  is the \<open>while True\<close> loop of \<open>email_polling_task\<close>). "A batch is the set of messages
  fetched in one polling cycle", processed in fetch order.
\<close>

fun run_cycle ::
  "'v capabilities \<Rightarrow> timestamp \<Rightarrow> pipeline_state \<Rightarrow> raw_message list
     \<Rightarrow> pipeline_state \<times> cycle_outcome" where
  "run_cycle caps now st [] = (st, Completed)"
| "run_cycle caps now st (raw # rest) =
     (case process_message caps now st raw of
        (st', Some e) \<Rightarrow> (st', Aborted e)
      | (st', None) \<Rightarrow> run_cycle caps now st' rest)"

text \<open>
  Modelled from the spec: the sequence of polling cycles is missing from the sources.
  Each cycle has its own time, its own batch and its own answers of the collaborators;
  the ledger and the record of events go from one cycle to the next, whatever the
  outcome of the cycle.
\<close>

fun run_cycles ::
  "pipeline_state \<Rightarrow> ('v capabilities \<times> timestamp \<times> raw_message list) list \<Rightarrow> pipeline_state" where
  "run_cycles st [] = st"
| "run_cycles st ((caps, now, batch) # rest) = run_cycles (fst (run_cycle caps now st batch)) rest"

text \<open>
  Modelled from the spec: a message fails in the parse, evaluate or generate stage when
  one of them answers with an error.
\<close>

definition stage_failure :: "'v capabilities \<Rightarrow> raw_message \<Rightarrow> bool" where
  "stage_failure caps raw =
     (case parse caps raw of
        Inl e \<Rightarrow> True
      | Inr m \<Rightarrow> (case build_reply caps m of Inl e \<Rightarrow> True | Inr reply \<Rightarrow> False))"

text \<open>
  Modelled from the spec: a message is answered when every stage and the send succeed.
\<close>

definition answered :: "'v capabilities \<Rightarrow> raw_message \<Rightarrow> bool" where
  "answered caps raw =
     (case parse caps raw of
        Inl e \<Rightarrow> False
      | Inr m \<Rightarrow>
          (case build_reply caps m of
             Inl e \<Rightarrow> False
           | Inr reply \<Rightarrow>
               (case send caps (sender_address m) (''Re: '' @ subject m) reply of
                  Inl e \<Rightarrow> False
                | Inr _ \<Rightarrow> True)))"

text \<open>
  Modelled from the spec: a message is refused when its reply meets the authentication
  failure of the transport, the failure that is "fatal to the whole loop".
\<close>

definition refused :: "'v capabilities \<Rightarrow> raw_message \<Rightarrow> bool" where
  "refused caps raw =
     (case parse caps raw of
        Inl e \<Rightarrow> False
      | Inr m \<Rightarrow>
          (case build_reply caps m of
             Inl e \<Rightarrow> False
           | Inr reply \<Rightarrow>
               send caps (sender_address m) (''Re: '' @ subject m) reply = Inl AuthenticationError))"

text \<open>
  Modelled from the spec: the number of cycles in which the ledger write for an
  identifier fails ("ledger write failure: aborts the current cycle").
\<close>

definition write_failures ::
  "msg_id \<Rightarrow> ('v capabilities \<times> timestamp \<times> raw_message list) list \<Rightarrow> nat" where
  "write_failures j cycles =
     length (filter (\<lambda>(caps, now, batch). \<not> persist caps j now) cycles)"

text \<open>Modelled from the spec: the identifiers replied to, in order, read off the record of events.\<close>

definition sent_ids :: "event list \<Rightarrow> msg_id list" where
  "sent_ids es = concat (map (\<lambda>e. case e of Sent i \<Rightarrow> [i] | _ \<Rightarrow> []) es)"

text \<open>
  Collaborators for the examples: a parser that refuses an empty payload, an evaluator
  that answers directly, no index, a generator with a fixed reply, a transport that
  delivers and a persistence layer that writes; and the same with a persistence layer
  whose writes fail.
\<close>

definition caps_example :: "unit capabilities" where
  "caps_example =
     \<lparr> parse = (\<lambda>raw. if raw_bytes raw = [] then Inl ParseError
                       else Inr \<lparr> message_id = raw_id raw, sender_address = ''anna@example.com'',
                                  sender_name = ''Anna'', subject = ''AI News Summary'',
                                  body = ''Hey Alan'', attachment_count = 0, link_count = 0,
                                  received = 0 \<rparr>),
       evaluate = (\<lambda>m. Inr \<lparr> needs_retrieval = False, query = [], rationale = ''direct'' \<rparr>),
       search = (\<lambda>q k. None),
       turns = (\<lambda>s. []),
       generate = (\<lambda>m ts cs. Inr ''Thank you for your message.''),
       send = (\<lambda>rcpt subj txt. Inr ()),
       persist = (\<lambda>i ts. True) \<rparr>"

definition caps_write_fails :: "unit capabilities" where
  "caps_write_fails = caps_example\<lparr> persist := (\<lambda>i ts. False) \<rparr>"

definition raw_example :: "msg_id \<Rightarrow> byte list \<Rightarrow> raw_message" where
  "raw_example i bs = \<lparr> raw_id = i, raw_bytes = bs \<rparr>"

definition index_caps_example :: "unit index_capabilities" where
  "index_caps_example = \<lparr> split = (\<lambda>t. [t]), embed = (\<lambda>t. ()) \<rparr>"

definition chunk_example :: "unit DocumentChunk" where
  "chunk_example =
     \<lparr> chunk_text = ''text'', embedding = (), title = ''t'', source = ''s'', topics = [],
       url = [], ingested_at = 0, document_id = ''d'' \<rparr>"

definition document_example :: Document where
  "document_example =
     \<lparr> doc_id = ''x'', doc_title = ''Document X'', doc_source = ''upload'', doc_url = [],
       doc_text = ''what is in document X'' \<rparr>"

section \<open>Properties of the decoder\<close>

lemma mod_window:
  fixes x :: nat
  assumes "q * m \<le> x" "x < q * m + m"
  shows "x mod m = x - q * m"
proof -
  have "x mod m = ((x - q * m) + q * m) mod m" using assms(1) by simp
  also have "\<dots> = (x - q * m) mod m" by simp
  also have "\<dots> = x - q * m" using assms by simp
  finally show ?thesis .
qed

lemma two_byte_scalar:
  assumes "ch < 224"
  shows "scalar_value ((ch mod 32) * 64 + ch2 mod 64)"
proof -
  have "ch mod 32 < 32" "ch2 mod 64 < 64" by simp_all
  then have "(ch mod 32) * 64 + ch2 mod 64 < 55296" by linarith
  then show ?thesis by (simp add: scalar_value_def)
qed

text \<open>
  Three bytes: the lead byte E0 with a second byte below A0 would be an overlong form
  and ED with a second byte from A0 a surrogate; the decoder has refused both.
\<close>

lemma three_byte_scalar:
  assumes "224 \<le> ch" "ch < 240" "128 \<le> ch2" "ch2 < 192"
    and "\<not> (if ch2 < 160 then ch = 224 else ch = 237)"
  shows "scalar_value ((ch mod 16) * 4096 + (ch2 mod 64) * 64 + ch3 mod 64)"
proof -
  define x y z where "x = ch - 224" and "y = ch2 - 128" and "z = ch3 mod 64"
  have a: "ch mod 16 = x" using mod_window[of 14 16 ch] assms(1,2) by (simp add: x_def)
  have b: "ch2 mod 64 = y" using mod_window[of 2 64 ch2] assms(3,4) by (simp add: y_def)
  have bounds: "x < 16" "y < 64" "z < 64"
    using assms(1-4) by (simp_all add: x_def y_def z_def)
  have lead: "x = 0 \<Longrightarrow> 32 \<le> y" and surr: "x = 13 \<Longrightarrow> y < 32"
    using assms by (auto simp: x_def y_def split: if_splits)
  consider "x = 0" | "1 \<le> x \<and> x \<le> 12" | "x = 13" | "14 \<le> x" by linarith
  then have "x * 4096 + y * 64 + z < 55296 \<or>
             (57344 \<le> x * 4096 + y * 64 + z \<and> x * 4096 + y * 64 + z < 1114112)"
  proof cases
    case 1 with bounds show ?thesis by simp
  next
    case 2 with bounds show ?thesis by linarith
  next
    case 3 with bounds surr show ?thesis by simp
  next
    case 4 with bounds show ?thesis by linarith
  qed
  then show ?thesis unfolding scalar_value_def a b z_def .
qed

text \<open>
  Four bytes: F0 with a second byte below 90 would be overlong and F4 with a second byte
  from 90 above U+10FFFF.
\<close>

lemma four_byte_scalar:
  assumes "240 \<le> ch" "ch < 245" "128 \<le> ch2" "ch2 < 192"
    and "\<not> (if ch2 < 144 then ch = 240 else ch = 244)"
  shows "scalar_value ((ch mod 8) * 262144 + (ch2 mod 64) * 4096 + (ch3 mod 64) * 64 + ch4 mod 64)"
proof -
  define x y z w where "x = ch - 240" and "y = ch2 - 128" and "z = ch3 mod 64" and "w = ch4 mod 64"
  have a: "ch mod 8 = x" using mod_window[of 30 8 ch] assms(1,2) by (simp add: x_def)
  have b: "ch2 mod 64 = y" using mod_window[of 2 64 ch2] assms(3,4) by (simp add: y_def)
  have bounds: "x < 5" "y < 64" "z < 64" "w < 64"
    using assms(1-4) by (simp_all add: x_def y_def z_def w_def)
  have lead: "x = 0 \<Longrightarrow> 16 \<le> y" and top: "x = 4 \<Longrightarrow> y < 16"
    using assms by (auto simp: x_def y_def split: if_splits)
  consider "x = 0" | "1 \<le> x \<and> x \<le> 3" | "x = 4" using bounds(1) by linarith
  then have "57344 \<le> x * 262144 + y * 4096 + z * 64 + w \<and>
             x * 262144 + y * 4096 + z * 64 + w < 1114112"
  proof cases
    case 1 with bounds lead show ?thesis by simp
  next
    case 2 with bounds show ?thesis by linarith
  next
    case 3 with bounds top show ?thesis by simp
  qed
  then show ?thesis unfolding scalar_value_def a b z_def w_def by simp
qed

lemma utf8_step_scalar:
  assumes d: "utf8_step bs = Decoded c n"
  shows "scalar_value c"
proof (cases bs)
  case Nil
  with d show ?thesis by simp
next
  case (Cons b0 rest)
  have small: "unat b0 < 128 \<Longrightarrow> scalar_value (unat b0)" by (simp add: scalar_value_def)
  show ?thesis
    using d unfolding Cons
    by (auto simp: Let_def is_continuation_def two_byte_scalar three_byte_scalar four_byte_scalar
        small split: if_splits list.splits)
qed

lemma scalar_replacement: "scalar_value REPLACEMENT_CHARACTER"
  by (simp add: scalar_value_def REPLACEMENT_CHARACTER_def)

text \<open>
  With the handler \<open>replace\<close> the decoder returns a text for every byte sequence, and
  the text holds scalar values only.
\<close>

lemma utf8_decode_replace_total:
  "\<exists>t. utf8_decode Replace bs = Inr t \<and> list_all scalar_value t"
proof (induction "Replace" bs rule: utf8_decode.induct)
  case 1
  show ?case by simp
next
  case (2 b bs)
  show ?case
  proof (cases "utf8_step (b # bs)")
    case (Decoded c n)
    from 2(1)[OF Decoded] obtain t where
      "utf8_decode Replace (drop (n - 1) bs) = Inr t" "list_all scalar_value t" by blast
    with Decoded utf8_step_scalar[OF Decoded] show ?thesis by simp
  next
    case InvalidStart
    from 2(2)[OF InvalidStart] obtain t where
      "utf8_decode Replace bs = Inr t" "list_all scalar_value t" by blast
    with InvalidStart scalar_replacement show ?thesis by simp
  next
    case (InvalidContinuation k)
    from 2(3)[OF InvalidContinuation] obtain t where
      "utf8_decode Replace (drop (k - 1) bs) = Inr t" "list_all scalar_value t" by blast
    with InvalidContinuation scalar_replacement show ?thesis by simp
  next
    case UnexpectedEnd
    with scalar_replacement show ?thesis by simp
  qed
qed

text \<open>The decoder on well-formed input: ASCII, and the encoding of any text of scalar values.\<close>

lemma utf8_decode_ascii:
  "list_all (\<lambda>b. unat b < 128) bs \<Longrightarrow> utf8_decode h bs = Inr (map unat bs)"
  by (induction bs) (simp_all add: Let_def)

lemma utf8_decode_examples:
  "utf8_decode Strict [0xC3, 0xA9] = Inr [233]"
  "utf8_decode Strict [0xE2, 0x82, 0xAC] = Inr [8364]"
  "utf8_decode Strict [0xF0, 0x9F, 0x98, 0x80] = Inr [128512]"
  "utf8_decode Strict [0xC3, 0x28] = Inl (UnicodeDecodeError ''invalid continuation byte'')"
  "utf8_decode Replace [0xC3, 0x28] = Inr [65533, 40]"
  "utf8_decode Replace [0xE2, 0x82] = Inr [65533]"
  "utf8_decode Replace [0xED, 0xA0, 0x80] = Inr [65533, 65533, 65533]"
  "utf8_decode Replace [0xC0, 0x80] = Inr [65533, 65533]"
  by (simp_all add: is_continuation_def REPLACEMENT_CHARACTER_def)

lemma unat_byte: "x < 256 \<Longrightarrow> unat (of_nat x :: byte) = x"
  by (simp add: unat_of_nat)

lemma step_one:
  assumes "unat b0 = c" "c < 128"
  shows "utf8_step (b0 # rest) = Decoded c 1"
  using assms by simp

lemma step_two:
  assumes b: "unat b0 = 192 + c div 64" "unat b1 = 128 + c mod 64"
    and c: "128 \<le> c" "c < 2048"
  shows "utf8_step (b0 # b1 # rest) = Decoded c 2"
proof -
  have lo: "2 \<le> c div 64" and hi: "c div 64 < 32" using c by simp_all
  have m1: "(192 + c div 64) mod 32 = c div 64"
    using mod_window[of 6 32 "192 + c div 64"] hi by simp
  have m2: "(128 + c mod 64) mod 64 = c mod 64"
    using mod_window[of 2 64 "128 + c mod 64"] by simp
  show ?thesis using lo hi
    by (simp add: b Let_def is_continuation_def m1 m2)
qed

lemma step_three:
  assumes b: "unat b0 = 224 + c div 4096" "unat b1 = 128 + (c div 64) mod 64"
      "unat b2 = 128 + c mod 64"
    and c: "2048 \<le> c" "c < 65536" "scalar_value c"
  shows "utf8_step (b0 # b1 # b2 # rest) = Decoded c 3"
proof -
  define x y z where "x = c div 4096" and "y = (c div 64) mod 64" and "z = c mod 64"
  have xb: "x < 16" using c(2) by (simp add: x_def)
  have yb: "y < 64" and zb: "z < 64" by (simp_all add: y_def z_def)
  have "c div 64 = (c div 4096) * 64 + (c div 64) mod 64"
  proof -
    have "c div 4096 = (c div 64) div 64" by (simp add: div_mult2_eq)
    then show ?thesis by simp
  qed
  then have val: "c = x * 4096 + y * 64 + z"
    unfolding x_def y_def z_def using div_mult_mod_eq[of c 64] by linarith
  have m1: "(224 + x) mod 16 = x" using mod_window[of 14 16 "224 + x"] xb by simp
  have m2: "(128 + y) mod 64 = y" using mod_window[of 2 64 "128 + y"] yb by simp
  have m3: "(128 + z) mod 64 = z" using mod_window[of 2 64 "128 + z"] zb by simp
  have lead: "x \<noteq> 0 \<or> 32 \<le> y" using c(1) val zb by linarith
  have surr: "x \<noteq> 13 \<or> y < 32" using c(3) val zb yb unfolding scalar_value_def by linarith
  have cont: "is_continuation (128 + y)" "is_continuation (128 + z)"
    using yb zb by (simp_all add: is_continuation_def)
  have ok: "\<not> (if 128 + y < 160 then 224 + x = 224 else 224 + x = 237)"
    using lead surr by (simp split: if_splits) linarith
  have b': "unat b0 = 224 + x" "unat b1 = 128 + y" "unat b2 = 128 + z"
    using b by (simp_all add: x_def y_def z_def)
  show ?thesis
    using xb cont ok by (simp add: b' Let_def m1 m2 m3 val del: One_nat_def)
qed

lemma step_four:
  assumes b: "unat b0 = 240 + c div 262144" "unat b1 = 128 + (c div 4096) mod 64"
      "unat b2 = 128 + (c div 64) mod 64" "unat b3 = 128 + c mod 64"
    and c: "65536 \<le> c" "c < 1114112"
  shows "utf8_step (b0 # b1 # b2 # b3 # rest) = Decoded c 4"
proof -
  define x y z w where "x = c div 262144" and "y = (c div 4096) mod 64"
    and "z = (c div 64) mod 64" and "w = c mod 64"
  have xb: "x < 5" using c(2) by (simp add: x_def)
  have yb: "y < 64" and zb: "z < 64" and wb: "w < 64" by (simp_all add: y_def z_def w_def)
  have d1: "c div 64 = (c div 4096) * 64 + z"
  proof -
    have "c div 4096 = (c div 64) div 64" by (simp add: div_mult2_eq)
    then show ?thesis by (simp add: z_def)
  qed
  have d2: "c div 4096 = x * 64 + y"
  proof -
    have "c div 262144 = (c div 4096) div 64" by (simp add: div_mult2_eq)
    then show ?thesis by (simp add: x_def y_def)
  qed
  have val: "c = x * 262144 + y * 4096 + z * 64 + w"
    using div_mult_mod_eq[of c 64] d1 d2 unfolding w_def by linarith
  have m1: "(240 + x) mod 8 = x" using mod_window[of 30 8 "240 + x"] xb by simp
  have m2: "(128 + y) mod 64 = y" using mod_window[of 2 64 "128 + y"] yb by simp
  have m3: "(128 + z) mod 64 = z" using mod_window[of 2 64 "128 + z"] zb by simp
  have m4: "(128 + w) mod 64 = w" using mod_window[of 2 64 "128 + w"] wb by simp
  have lead: "x \<noteq> 0 \<or> 16 \<le> y" using c(1) val zb wb by linarith
  have top: "x \<noteq> 4 \<or> y < 16" using c(2) val by linarith
  have cont: "is_continuation (128 + y)" "is_continuation (128 + z)" "is_continuation (128 + w)"
    using yb zb wb by (simp_all add: is_continuation_def)
  have ok: "\<not> (if 128 + y < 144 then 240 + x = 240 else 240 + x = 244)"
    using lead top by (simp split: if_splits) linarith
  have b': "unat b0 = 240 + x" "unat b1 = 128 + y" "unat b2 = 128 + z" "unat b3 = 128 + w"
    using b by (simp_all add: x_def y_def z_def w_def)
  show ?thesis
    using xb cont ok by (simp add: b' Let_def m1 m2 m3 m4 val del: One_nat_def)
qed

lemma utf8_encode_Cons:
  "utf8_encode (c # s) = map of_nat (utf8_encode_cp c) @ utf8_encode s"
  by (simp add: utf8_encode_def)

lemma decode_encoded_cp:
  assumes c: "scalar_value c"
  shows "utf8_decode h (map of_nat (utf8_encode_cp c) @ rest) =
           (case utf8_decode h rest of Inl e \<Rightarrow> Inl e | Inr t \<Rightarrow> Inr (c # t))"
proof -
  have top: "c < 1114112" using c unfolding scalar_value_def by linarith
  consider "c < 128" | "128 \<le> c \<and> c < 2048" | "2048 \<le> c \<and> c < 65536" | "65536 \<le> c"
    by linarith
  then show ?thesis
  proof cases
    case 1
    then have "unat (of_nat c :: byte) = c" by (simp add: unat_byte)
    from step_one[OF this 1, of rest] 1 show ?thesis
      by (simp add: utf8_encode_cp_def del: utf8_step.simps)
  next
    case 2
    have "c div 64 < 32" using 2 by (intro less_mult_imp_div_less) simp
    then have "unat (of_nat (192 + c div 64) :: byte) = 192 + c div 64"
      by (intro unat_byte) simp
    moreover have "unat (of_nat (128 + c mod 64) :: byte) = 128 + c mod 64"
      by (intro unat_byte) simp
    ultimately have "utf8_step (of_nat (192 + c div 64) # of_nat (128 + c mod 64) # rest) = Decoded c 2"
      using 2 by (intro step_two) simp_all
    with 2 show ?thesis
      by (simp add: utf8_encode_cp_def del: utf8_step.simps of_nat_add)
  next
    case 3
    have "c div 4096 < 16" using 3 by (intro less_mult_imp_div_less) simp
    then have "unat (of_nat (224 + c div 4096) :: byte) = 224 + c div 4096"
      by (intro unat_byte) simp
    moreover have "unat (of_nat (128 + (c div 64) mod 64) :: byte) = 128 + (c div 64) mod 64"
      by (intro unat_byte) simp
    moreover have "unat (of_nat (128 + c mod 64) :: byte) = 128 + c mod 64"
      by (intro unat_byte) simp
    ultimately have "utf8_step (of_nat (224 + c div 4096) # of_nat (128 + (c div 64) mod 64)
                       # of_nat (128 + c mod 64) # rest) = Decoded c 3"
      using 3 c by (intro step_three) simp_all
    with 3 show ?thesis
      by (simp add: utf8_encode_cp_def del: utf8_step.simps of_nat_add)
  next
    case 4
    have "c div 262144 < 5" using top by (intro less_mult_imp_div_less) simp
    then have "unat (of_nat (240 + c div 262144) :: byte) = 240 + c div 262144"
      by (intro unat_byte) simp
    moreover have "unat (of_nat (128 + (c div 4096) mod 64) :: byte) = 128 + (c div 4096) mod 64"
      by (intro unat_byte) simp
    moreover have "unat (of_nat (128 + (c div 64) mod 64) :: byte) = 128 + (c div 64) mod 64"
      by (intro unat_byte) simp
    moreover have "unat (of_nat (128 + c mod 64) :: byte) = 128 + c mod 64"
      by (intro unat_byte) simp
    ultimately have "utf8_step (of_nat (240 + c div 262144) # of_nat (128 + (c div 4096) mod 64)
                       # of_nat (128 + (c div 64) mod 64) # of_nat (128 + c mod 64) # rest) = Decoded c 4"
      using 4 top by (intro step_four) simp_all
    with 4 show ?thesis
      by (simp add: utf8_encode_cp_def del: utf8_step.simps of_nat_add)
  qed
qed

lemma utf8_decode_encode:
  "list_all scalar_value s \<Longrightarrow> utf8_decode h (utf8_encode s) = Inr s"
proof (induction s)
  case Nil
  show ?case by (simp add: utf8_encode_def)
next
  case (Cons c s)
  then show ?case by (simp add: utf8_encode_Cons decode_encoded_cp)
qed

text \<open>
  The decoder is exact: where it decodes a scalar value, the bytes it consumed are the
  UTF-8 encoding of that value; where it reports an error, no encoding of a scalar value
  starts, and the bytes it skips are the offending byte and continuation bytes only. So
  decoding with \<open>replace\<close> satisfies \<open>utf8_replaced\<close>.
\<close>

lemma pack:
  fixes q r m :: nat
  assumes "r < m"
  shows "(q * m + r) div m = q" "(q * m + r) mod m = r"
  using assms by simp_all

lemma enc_two:
  assumes "194 \<le> ch" "ch < 224" "128 \<le> ch2" "ch2 < 192"
  shows "utf8_encode_cp ((ch mod 32) * 64 + ch2 mod 64) = [ch, ch2]"
proof -
  define x y where "x = ch - 192" and "y = ch2 - 128"
  have a: "ch mod 32 = x" using mod_window[of 6 32 ch] assms(1,2) by (simp add: x_def)
  have b: "ch2 mod 64 = y" using mod_window[of 2 64 ch2] assms(3,4) by (simp add: y_def)
  have xb: "2 \<le> x" "x < 32" and yb: "y < 64" using assms by (simp_all add: x_def y_def)
  define v where "v = x * 64 + y"
  have lo: "128 \<le> v" and hi: "v < 2048" using xb yb unfolding v_def by linarith+
  have d: "v div 64 = x" and m: "v mod 64 = y" using pack[OF yb, of x] unfolding v_def by simp_all
  have orig: "192 + x = ch" "128 + y = ch2" using assms by (simp_all add: x_def y_def)
  have "utf8_encode_cp v = [ch, ch2]"
    using lo hi by (simp add: utf8_encode_cp_def d m orig)
  then show ?thesis unfolding a b v_def .
qed

lemma enc_three:
  assumes "224 \<le> ch" "ch < 240" "128 \<le> ch2" "ch2 < 192" "128 \<le> ch3" "ch3 < 192"
    and "\<not> (if ch2 < 160 then ch = 224 else ch = 237)"
  shows "utf8_encode_cp ((ch mod 16) * 4096 + (ch2 mod 64) * 64 + ch3 mod 64) = [ch, ch2, ch3]"
proof -
  define x y z where "x = ch - 224" and "y = ch2 - 128" and "z = ch3 - 128"
  have a: "ch mod 16 = x" using mod_window[of 14 16 ch] assms(1,2) by (simp add: x_def)
  have b: "ch2 mod 64 = y" using mod_window[of 2 64 ch2] assms(3,4) by (simp add: y_def)
  have c: "ch3 mod 64 = z" using mod_window[of 2 64 ch3] assms(5,6) by (simp add: z_def)
  have xb: "x < 16" and yb: "y < 64" and zb: "z < 64" using assms by (simp_all add: x_def y_def z_def)
  have lead: "x \<noteq> 0 \<or> 32 \<le> y" using assms by (auto simp: x_def y_def split: if_splits)
  define v where "v = x * 4096 + y * 64 + z"
  have v64: "v = (x * 64 + y) * 64 + z" and v4096: "v = x * 4096 + (y * 64 + z)"
    unfolding v_def by simp_all
  have r: "y * 64 + z < 4096" using yb zb by linarith
  have lo: "2048 \<le> v" using lead unfolding v_def by linarith
  have hi: "v < 65536" using xb yb zb unfolding v_def by linarith
  have d1: "v div 4096 = x" using pack(1)[OF r, of x] unfolding v4096 by simp
  have d2: "v div 64 = x * 64 + y" using pack(1)[OF zb, of "x * 64 + y"] unfolding v64 by simp
  have m2: "(x * 64 + y) mod 64 = y" using pack(2)[OF yb, of x] by simp
  have m3: "v mod 64 = z" using pack(2)[OF zb, of "x * 64 + y"] unfolding v64 by simp
  have orig: "224 + x = ch" "128 + y = ch2" "128 + z = ch3"
    using assms by (simp_all add: x_def y_def z_def)
  have e1: "224 + v div 4096 = ch" and e2: "128 + (v div 64) mod 64 = ch2"
    and e3: "128 + v mod 64 = ch3"
    unfolding d1 d2 m2 m3 by (rule orig)+
  have "utf8_encode_cp v = [ch, ch2, ch3]"
    using lo hi by (simp add: utf8_encode_cp_def e1 e2 e3)
  then show ?thesis unfolding a b c v_def .
qed

lemma enc_four:
  assumes "240 \<le> ch" "ch < 245" "128 \<le> ch2" "ch2 < 192" "128 \<le> ch3" "ch3 < 192"
    "128 \<le> ch4" "ch4 < 192"
    and "\<not> (if ch2 < 144 then ch = 240 else ch = 244)"
  shows "utf8_encode_cp ((ch mod 8) * 262144 + (ch2 mod 64) * 4096 + (ch3 mod 64) * 64 + ch4 mod 64)
         = [ch, ch2, ch3, ch4]"
proof -
  define x y z w where "x = ch - 240" and "y = ch2 - 128" and "z = ch3 - 128" and "w = ch4 - 128"
  have a: "ch mod 8 = x" using mod_window[of 30 8 ch] assms(1,2) by (simp add: x_def)
  have b: "ch2 mod 64 = y" using mod_window[of 2 64 ch2] assms(3,4) by (simp add: y_def)
  have c: "ch3 mod 64 = z" using mod_window[of 2 64 ch3] assms(5,6) by (simp add: z_def)
  have e: "ch4 mod 64 = w" using mod_window[of 2 64 ch4] assms(7,8) by (simp add: w_def)
  have xb: "x < 5" and yb: "y < 64" and zb: "z < 64" and wb: "w < 64"
    using assms by (simp_all add: x_def y_def z_def w_def)
  have lead: "x \<noteq> 0 \<or> 16 \<le> y" using assms by (auto simp: x_def y_def split: if_splits)
  define v where "v = x * 262144 + y * 4096 + z * 64 + w"
  have v64: "v = ((x * 64 + y) * 64 + z) * 64 + w"
    and v4096: "v = (x * 64 + y) * 4096 + (z * 64 + w)"
    and vtop: "v = x * 262144 + (y * 4096 + z * 64 + w)"
    unfolding v_def by simp_all
  have r1: "z * 64 + w < 4096" using zb wb by linarith
  have r2: "y * 4096 + z * 64 + w < 262144" using yb zb wb by linarith
  have lo: "65536 \<le> v" using lead unfolding v_def by linarith
  have d1: "v div 262144 = x" using pack(1)[OF r2, of x] unfolding vtop by simp
  have d2: "v div 4096 = x * 64 + y" using pack(1)[OF r1, of "x * 64 + y"] unfolding v4096 by simp
  have d3: "v div 64 = (x * 64 + y) * 64 + z"
    using pack(1)[OF wb, of "(x * 64 + y) * 64 + z"] unfolding v64 by simp
  have m2: "(x * 64 + y) mod 64 = y" using pack(2)[OF yb, of x] by simp
  have m3: "((x * 64 + y) * 64 + z) mod 64 = z" using pack(2)[OF zb, of "x * 64 + y"] by simp
  have m4: "v mod 64 = w" using pack(2)[OF wb, of "(x * 64 + y) * 64 + z"] unfolding v64 by simp
  have orig: "240 + x = ch" "128 + y = ch2" "128 + z = ch3" "128 + w = ch4"
    using assms by (simp_all add: x_def y_def z_def w_def)
  have e1: "240 + v div 262144 = ch" and e2: "128 + (v div 4096) mod 64 = ch2"
    and e3: "128 + (v div 64) mod 64 = ch3" and e4: "128 + v mod 64 = ch4"
    unfolding d1 d2 d3 m2 m3 m4 by (rule orig)+
  have "utf8_encode_cp v = [ch, ch2, ch3, ch4]"
    using lo by (simp add: utf8_encode_cp_def e1 e2 e3 e4)
  then show ?thesis unfolding a b c e v_def .
qed

lemma utf8_encode_single: "utf8_encode [c] = map of_nat (utf8_encode_cp c)"
  by (simp add: utf8_encode_def)

lemma byte_of_unat: "(of_nat (unat b) :: byte) = b"
  by simp

lemma utf8_step_exact:
  assumes d: "utf8_step (b # bs) = Decoded c n"
  shows "b # bs = utf8_encode [c] @ drop (n - 1) bs"
proof -
  have small: "unat b < 128 \<Longrightarrow> utf8_encode_cp (unat b) = [unat b]"
    by (simp add: utf8_encode_cp_def)
  show ?thesis
    using d
    by (auto simp: Let_def is_continuation_def utf8_encode_single small enc_two enc_three enc_four
        split: if_splits list.splits)
qed

lemma utf8_step_InvalidContinuation:
  assumes "utf8_step (b # bs) = InvalidContinuation k"
  shows "k - 1 \<le> 2 \<and> list_all (\<lambda>x. is_continuation (unat x)) (take (k - 1) bs) \<and>
         length (take (k - 1) bs) = k - 1"
  using assms
  by (auto simp: Let_def split: if_splits list.splits)

lemma utf8_step_UnexpectedEnd:
  assumes "utf8_step (b # bs) = UnexpectedEnd"
  shows "length bs \<le> 2 \<and> list_all (\<lambda>x. is_continuation (unat x)) bs"
  using assms
  by (auto simp: Let_def split: if_splits list.splits)

lemma utf8_step_encoded:
  assumes c: "scalar_value c"
  shows "utf8_step (utf8_encode [c] @ rest) = Decoded c (length (utf8_encode_cp c))"
proof -
  have top: "c < 1114112" using c unfolding scalar_value_def by linarith
  consider "c < 128" | "128 \<le> c \<and> c < 2048" | "2048 \<le> c \<and> c < 65536" | "65536 \<le> c"
    by linarith
  then show ?thesis
  proof cases
    case 1
    then have "unat (of_nat c :: byte) = c" by (simp add: unat_byte)
    from step_one[OF this 1, of rest] 1 show ?thesis
      by (simp add: utf8_encode_single utf8_encode_cp_def del: utf8_step.simps)
  next
    case 2
    have "c div 64 < 32" using 2 by (intro less_mult_imp_div_less) simp
    then have "unat (of_nat (192 + c div 64) :: byte) = 192 + c div 64"
      by (intro unat_byte) simp
    moreover have "unat (of_nat (128 + c mod 64) :: byte) = 128 + c mod 64"
      by (intro unat_byte) simp
    ultimately have "utf8_step (of_nat (192 + c div 64) # of_nat (128 + c mod 64) # rest) = Decoded c 2"
      using 2 by (intro step_two) simp_all
    with 2 show ?thesis
      by (simp add: utf8_encode_single utf8_encode_cp_def del: utf8_step.simps of_nat_add)
  next
    case 3
    have "c div 4096 < 16" using 3 by (intro less_mult_imp_div_less) simp
    then have "unat (of_nat (224 + c div 4096) :: byte) = 224 + c div 4096"
      by (intro unat_byte) simp
    moreover have "unat (of_nat (128 + (c div 64) mod 64) :: byte) = 128 + (c div 64) mod 64"
      by (intro unat_byte) simp
    moreover have "unat (of_nat (128 + c mod 64) :: byte) = 128 + c mod 64"
      by (intro unat_byte) simp
    ultimately have "utf8_step (of_nat (224 + c div 4096) # of_nat (128 + (c div 64) mod 64)
                       # of_nat (128 + c mod 64) # rest) = Decoded c 3"
      using 3 c by (intro step_three) simp_all
    with 3 show ?thesis
      by (simp add: utf8_encode_single utf8_encode_cp_def del: utf8_step.simps of_nat_add)
  next
    case 4
    have "c div 262144 < 5" using top by (intro less_mult_imp_div_less) simp
    then have "unat (of_nat (240 + c div 262144) :: byte) = 240 + c div 262144"
      by (intro unat_byte) simp
    moreover have "unat (of_nat (128 + (c div 4096) mod 64) :: byte) = 128 + (c div 4096) mod 64"
      by (intro unat_byte) simp
    moreover have "unat (of_nat (128 + (c div 64) mod 64) :: byte) = 128 + (c div 64) mod 64"
      by (intro unat_byte) simp
    moreover have "unat (of_nat (128 + c mod 64) :: byte) = 128 + c mod 64"
      by (intro unat_byte) simp
    ultimately have "utf8_step (of_nat (240 + c div 262144) # of_nat (128 + (c div 4096) mod 64)
                       # of_nat (128 + (c div 64) mod 64) # of_nat (128 + c mod 64) # rest) = Decoded c 4"
      using 4 top by (intro step_four) simp_all
    with 4 show ?thesis
      by (simp add: utf8_encode_single utf8_encode_cp_def del: utf8_step.simps of_nat_add)
  qed
qed

lemma ill_formed_position:
  assumes "\<And>c n. utf8_step bs \<noteq> Decoded c n"
  shows "\<not> (\<exists>c tail. scalar_value c \<and> bs = utf8_encode [c] @ tail)"
  using assms utf8_step_encoded by metis

lemma utf8_decode_replaced:
  "\<exists>d. utf8_decode Replace bs = Inr d \<and> utf8_replaced bs d"
proof (induction "Replace" bs rule: utf8_decode.induct)
  case 1
  show ?case by (simp add: utf8_replaced_end)
next
  case (2 b bs)
  show ?case
  proof (cases "utf8_step (b # bs)")
    case (Decoded c n)
    from 2(1)[OF Decoded] obtain t where
      t: "utf8_decode Replace (drop (n - 1) bs) = Inr t" "utf8_replaced (drop (n - 1) bs) t" by blast
    have "utf8_replaced (utf8_encode [c] @ drop (n - 1) bs) (c # t)"
      using utf8_step_scalar[OF Decoded] t(2) by (rule utf8_replaced_scalar)
    then have "utf8_replaced (b # bs) (c # t)" using utf8_step_exact[OF Decoded] by simp
    with Decoded t(1) show ?thesis by simp
  next
    case InvalidStart
    from 2(2)[OF InvalidStart] obtain t where
      t: "utf8_decode Replace bs = Inr t" "utf8_replaced bs t" by blast
    have "\<not> (\<exists>c tail. scalar_value c \<and> b # [] @ bs = utf8_encode [c] @ tail)"
      using ill_formed_position[of "b # bs"] InvalidStart by simp
    then have "utf8_replaced (b # [] @ bs) (REPLACEMENT_CHARACTER # t)"
      using t(2) by (intro utf8_replaced_ill_formed) simp_all
    with InvalidStart t(1) show ?thesis by simp
  next
    case (InvalidContinuation k)
    from 2(3)[OF InvalidContinuation] obtain t where
      t: "utf8_decode Replace (drop (k - 1) bs) = Inr t" "utf8_replaced (drop (k - 1) bs) t" by blast
    have shape: "k - 1 \<le> 2" "list_all (\<lambda>x. is_continuation (unat x)) (take (k - 1) bs)"
      "length (take (k - 1) bs) = k - 1"
      using utf8_step_InvalidContinuation[OF InvalidContinuation] by blast+
    have "\<not> (\<exists>c tail. scalar_value c \<and>
             b # take (k - 1) bs @ drop (k - 1) bs = utf8_encode [c] @ tail)"
      using ill_formed_position[of "b # bs"] InvalidContinuation by simp
    then have "utf8_replaced (b # take (k - 1) bs @ drop (k - 1) bs) (REPLACEMENT_CHARACTER # t)"
      using shape t(2) by (intro utf8_replaced_ill_formed) simp_all
    with InvalidContinuation t(1) show ?thesis by simp
  next
    case UnexpectedEnd
    have shape: "length bs \<le> 2" "list_all (\<lambda>x. is_continuation (unat x)) bs"
      using utf8_step_UnexpectedEnd[OF UnexpectedEnd] by blast+
    have "\<not> (\<exists>c tail. scalar_value c \<and> b # bs @ [] = utf8_encode [c] @ tail)"
      using ill_formed_position[of "b # bs"] UnexpectedEnd by simp
    then have "utf8_replaced (b # bs @ []) (REPLACEMENT_CHARACTER # [])"
      using shape utf8_replaced_end by (intro utf8_replaced_ill_formed) simp_all
    with UnexpectedEnd show ?thesis by simp
  qed
qed

lemma utf8_encode_cp_nonempty: "utf8_encode_cp c \<noteq> []"
  by (simp add: utf8_encode_cp_def)

lemma utf8_encode_prefix_free:
  assumes "scalar_value c" "scalar_value c'"
    and "utf8_encode [c] @ rest = utf8_encode [c'] @ rest'"
  shows "c = c' \<and> rest = rest'"
proof -
  have "utf8_step (utf8_encode [c] @ rest) = Decoded c (length (utf8_encode_cp c))"
    using assms(1) by (rule utf8_step_encoded)
  moreover have "utf8_step (utf8_encode [c'] @ rest') = Decoded c' (length (utf8_encode_cp c'))"
    using assms(2) by (rule utf8_step_encoded)
  ultimately have "c = c'" using assms(3) by simp
  with assms(3) show ?thesis by simp
qed

lemma utf8_replaced_well_formed:
  "utf8_replaced bs d \<Longrightarrow> list_all scalar_value s \<Longrightarrow> bs = utf8_encode s \<Longrightarrow> d = s"
proof (induction arbitrary: s rule: utf8_replaced.induct)
  case utf8_replaced_end
  then show ?case
    by (cases s) (simp_all add: utf8_encode_def utf8_encode_cp_nonempty)
next
  case (utf8_replaced_scalar c rest d)
  show ?case
  proof (cases s)
    case Nil
    with utf8_replaced_scalar.prems show ?thesis
      by (simp add: utf8_encode_def utf8_encode_cp_nonempty)
  next
    case (Cons c' s')
    have c': "scalar_value c'" and s': "list_all scalar_value s'"
      using utf8_replaced_scalar.prems(1) Cons by simp_all
    have "utf8_encode [c] @ rest = utf8_encode [c'] @ utf8_encode s'"
      using utf8_replaced_scalar.prems(2) Cons by (simp add: utf8_encode_def)
    from utf8_encode_prefix_free[OF utf8_replaced_scalar.hyps(1) c' this]
    have "c = c'" "rest = utf8_encode s'" by simp_all
    with utf8_replaced_scalar.IH[OF s'] Cons show ?thesis by simp
  qed
next
  case (utf8_replaced_ill_formed b conts rest d)
  show ?case
  proof (cases s)
    case Nil
    with utf8_replaced_ill_formed.prems show ?thesis by (simp add: utf8_encode_def)
  next
    case (Cons c' s')
    have "scalar_value c'" using utf8_replaced_ill_formed.prems(1) Cons by simp
    moreover have "b # conts @ rest = utf8_encode [c'] @ utf8_encode s'"
      using utf8_replaced_ill_formed.prems(2) Cons by (simp add: utf8_encode_def)
    ultimately show ?thesis using utf8_replaced_ill_formed.hyps(1) by blast
  qed
qed

lemma utf8_replaced_nonempty: "utf8_replaced bs [] \<Longrightarrow> bs = []"
  by (erule utf8_replaced.cases) simp_all

lemma utf8_replaced_unmarked:
  "utf8_replaced bs d \<Longrightarrow> REPLACEMENT_CHARACTER \<notin> set d \<Longrightarrow> bs = utf8_encode d"
proof (induction rule: utf8_replaced.induct)
  case utf8_replaced_end
  show ?case by (simp add: utf8_encode_def)
next
  case (utf8_replaced_scalar c rest d)
  then show ?case by (simp add: utf8_encode_def)
next
  case (utf8_replaced_ill_formed b conts rest d)
  then show ?case by simp
qed

lemma utf8_replaced_example: "utf8_replaced [72, 255, 105] [72, 65533, 105]"
proof -
  have e: "utf8_encode [c] = [of_nat c]" if "c < 128" for c
    using that by (simp add: utf8_encode_def utf8_encode_cp_def)
  have "utf8_replaced (utf8_encode [105] @ []) [105]"
    by (intro utf8_replaced_scalar utf8_replaced_end) (simp add: scalar_value_def)
  then have i: "utf8_replaced [105] [105]" by (simp add: e)
  have "\<not> (\<exists>c tail. scalar_value c \<and> [255 :: byte, 105] = utf8_encode [c] @ tail)"
    by (intro ill_formed_position) simp
  then have "utf8_replaced (255 # [] @ [105]) (REPLACEMENT_CHARACTER # [105])"
    using i by (intro utf8_replaced_ill_formed) simp_all
  then have "utf8_replaced (utf8_encode [72] @ [255, 105]) [72, 65533, 105]"
    by (intro utf8_replaced_scalar) (simp_all add: scalar_value_def REPLACEMENT_CHARACTER_def)
  then show ?thesis by (simp add: e)
qed

lemma utf8_replaced_not_ignored: "\<not> utf8_replaced [72, 255, 105] [72, 105]"
proof
  assume "utf8_replaced [72, 255, 105] [72, 105]"
  then have "[72, 255, 105] = utf8_encode [72, 105]"
    by (rule utf8_replaced_unmarked) (simp add: REPLACEMENT_CHARACTER_def)
  then show False by (simp add: utf8_encode_def utf8_encode_cp_def)
qed

section \<open>Properties of normalization\<close>

text \<open>
  Canonical ordering permutes; composition only writes characters of its input and
  primary composites. So a property of code points that the database respects is kept
  by every stage.
\<close>

lemma set_reorder_insert: "set (reorder_insert u c acc) = insert c (set acc)"
  by (induction acc) auto

lemma set_reorder_foldl:
  "set (foldl (\<lambda>acc c. reorder_insert u c acc) acc s) = set acc \<union> set s"
  by (induction s arbitrary: acc) (auto simp: set_reorder_insert)

lemma set_canonical_order: "set (canonical_order u s) = set s"
  by (simp add: canonical_order_def set_reorder_foldl)

lemma compose_loop_all:
  assumes comp: "\<And>a b p. primary_composite u a b = Some p \<Longrightarrow> P p"
  shows "list_all P pre \<Longrightarrow> P st \<Longrightarrow> list_all P marks \<Longrightarrow> list_all P cs
         \<Longrightarrow> list_all P (compose_loop u pre st marks lc cs)"
proof (induction cs arbitrary: pre st marks lc)
  case Nil
  then show ?case by (auto simp: list_all_iff)
next
  case (Cons c cs)
  have c: "P c" and cs: "list_all P cs" using Cons.prems(4) by simp_all
  define composite where
    "composite = (if lc < combining u c \<or> lc = 0 then primary_composite u st c else None)"
  have step: "compose_loop u pre st marks lc (c # cs) =
      (case composite of
         Some p \<Rightarrow> compose_loop u pre p marks lc cs
       | None \<Rightarrow>
           if combining u c = 0 then compose_loop u (marks @ st # pre) c [] 0 cs
           else compose_loop u pre st (c # marks) (combining u c) cs)"
    by (simp add: composite_def Let_def)
  show ?case
  proof (cases composite)
    case (Some p)
    then have "primary_composite u st c = Some p"
      by (simp add: composite_def split: if_splits)
    then have "P p" by (rule comp)
    with Some step Cons.IH[OF Cons.prems(1) _ Cons.prems(3) cs] show ?thesis by simp
  next
    case None
    show ?thesis
    proof (cases "combining u c = 0")
      case True
      have "list_all P (marks @ st # pre)" using Cons.prems(1,2,3) by simp
      from Cons.IH[OF this c _ cs, of "[]" 0] None True step show ?thesis by simp
    next
      case False
      have "list_all P (c # marks)" using c Cons.prems(3) by simp
      from Cons.IH[OF Cons.prems(1,2) this cs] None False step show ?thesis by simp
    qed
  qed
qed

lemma compose_all:
  assumes "\<And>a b p. primary_composite u a b = Some p \<Longrightarrow> P p" "list_all P s"
  shows "list_all P (compose u s)"
  using assms(2) compose_loop_all[of u P, OF assms(1)]
  by (cases s) (simp_all add: compose_def)

lemma decompose_all:
  assumes "\<And>c. P c \<Longrightarrow> list_all P (full_decomposition u k c)" "list_all P s"
  shows "list_all P (decompose u k s)"
  using assms(2) by (induction s) (auto simp: decompose_def assms(1))

lemma canonical_order_all: "list_all P (canonical_order u s) = list_all P s"
  by (simp add: list_all_iff set_canonical_order)

lemma str_replace_removes: "old \<noteq> new \<Longrightarrow> old \<notin> set (str_replace s old new)"
  by (auto simp: str_replace_def)

lemma str_replace_all: "P new \<Longrightarrow> list_all P s \<Longrightarrow> list_all P (str_replace s old new)"
  by (auto simp: str_replace_def list_all_iff)

lemma str_replace_absent: "old \<notin> set s \<Longrightarrow> str_replace s old new = s"
  by (induction s) (auto simp: str_replace_def)

lemma nbsp_not_space: "NO_BREAK_SPACE \<noteq> SPACE"
  by (simp add: NO_BREAK_SPACE_def SPACE_def)

lemma clean_str_PyStr:
  "clean_str u (PyStr s) =
     Inr (str_replace (compose u (canonical_order u (decompose u True s))) NO_BREAK_SPACE SPACE)"
  by (simp add: clean_str_def unicodedata_normalize_def)

lemma clean_str_PyBytes:
  "utf8_decode Replace b = Inr d \<Longrightarrow> clean_str u (PyBytes b) = clean_str u (PyStr d)"
  by (simp add: clean_str_def)

section \<open>Properties of the ledger, the index and the orchestrator\<close>

lemma ingest_failure_unchanged:
  "fst (ingest caps now idx doc tps) = Inl e \<Longrightarrow> snd (ingest caps now idx doc tps) = idx"
  by (simp add: ingest_def Let_def split: if_splits)

lemma ingest_keeps_chunks:
  "take (length (chunks idx)) (chunks (snd (ingest caps now idx doc tps))) = chunks idx"
  by (simp add: ingest_def Let_def)

lemma ingest_within_capacity:
  "length (chunks idx) \<le> rag_max_index_size idx
   \<Longrightarrow> length (chunks (snd (ingest caps now idx doc tps))) \<le> rag_max_index_size idx"
  by (simp add: ingest_def Let_def)

lemma isProcessed_commit: "isProcessed (commit l i ts) j = (isProcessed l j \<or> j = i)"
  by (auto simp: commit_def isProcessed_def)

lemma commit_keeps: "l j = Some t \<Longrightarrow> commit l i ts j = Some t"
  by (auto simp: commit_def isProcessed_def)

lemma commit_present: "isProcessed l i \<Longrightarrow> commit l i ts = l"
  by (simp add: commit_def)

lemma commit_idem: "commit (commit l i ts) i ts' = commit l i ts"
  by (simp add: commit_present isProcessed_commit)

text \<open>What one message does to the ledger and to the record of events.\<close>

lemma sent_ids_append: "sent_ids (xs @ ys) = sent_ids xs @ sent_ids ys"
  by (simp add: sent_ids_def)

lemma sent_ids_simps:
  "sent_ids [] = []"
  "sent_ids (Sent i # es) = i # sent_ids es"
  "sent_ids (Committed i # es) = sent_ids es"
  "sent_ids (MarkRead i # es) = sent_ids es"
  "sent_ids (Skipped i e # es) = sent_ids es"
  by (simp_all add: sent_ids_def)

lemma set_sent_ids: "(i \<in> set (sent_ids es)) = (Sent i \<in> set es)"
  by (induction es) (auto simp: sent_ids_def split: event.splits)

lemma pm_stage_failure:
  assumes "stage_failure caps raw"
  shows "snd (process_message caps now st raw) = None"
    and "ledger (fst (process_message caps now st raw)) = ledger st"
    and "sent_ids (events (fst (process_message caps now st raw))) = sent_ids (events st)"
  using assms
  by (auto simp: process_message_def Let_def stage_failure_def skip_def sent_ids_append
      sent_ids_simps split: sum.splits if_splits)

lemma pm_known:
  assumes "isProcessed (ledger st) (raw_id raw)"
  shows "snd (process_message caps now st raw) = None"
    and "ledger (fst (process_message caps now st raw)) = ledger st"
    and "sent_ids (events (fst (process_message caps now st raw))) = sent_ids (events st)"
  using assms
  by (auto simp: process_message_def Let_def skip_def sent_ids_append
      sent_ids_simps split: sum.splits if_splits)

lemma pm_ledger_keeps:
  "ledger st j = Some t \<Longrightarrow> ledger (fst (process_message caps now st raw)) j = Some t"
  by (auto simp: process_message_def Let_def skip_def commit_keeps split: sum.splits if_splits)

lemma pm_events_extend:
  "\<exists>new. events (fst (process_message caps now st raw)) = events st @ new"
  by (auto simp: process_message_def Let_def skip_def split: sum.splits if_splits)

lemma pm_processed_origin:
  assumes "isProcessed (ledger (fst (process_message caps now st raw))) j"
  shows "isProcessed (ledger st) j \<or>
         (j = raw_id raw \<and> Sent j \<in> set (events (fst (process_message caps now st raw))))"
  using assms
  by (auto simp: process_message_def Let_def skip_def isProcessed_commit
      split: sum.splits if_splits)

lemma pm_answered:
  assumes "answered caps raw" "persist caps (raw_id raw) now"
  shows "snd (process_message caps now st raw) = None"
    and "isProcessed (ledger (fst (process_message caps now st raw))) (raw_id raw)"
    and "isProcessed (ledger st) (raw_id raw) \<or>
         Sent (raw_id raw) \<in> set (events (fst (process_message caps now st raw)))"
  using assms
  by (auto simp: process_message_def Let_def skip_def answered_def isProcessed_commit
      split: sum.splits if_splits)

lemma pm_abort:
  "snd (process_message caps now st raw) = Some e
   \<Longrightarrow> refused caps raw \<or> (answered caps raw \<and> \<not> persist caps (raw_id raw) now)"
  by (auto simp: process_message_def Let_def skip_def refused_def answered_def
      split: sum.splits if_splits)

lemma pm_abort_error:
  "snd (process_message caps now st raw) = Some e
   \<Longrightarrow> e = AuthenticationError \<or> e = LedgerWriteError"
  by (auto simp: process_message_def Let_def skip_def split: sum.splits if_splits)

lemma pm_same:
  assumes "ledger st = ledger st'" "sent_ids (events st) = sent_ids (events st')"
  shows "ledger (fst (process_message caps now st raw)) = ledger (fst (process_message caps now st' raw))"
    and "sent_ids (events (fst (process_message caps now st raw))) =
         sent_ids (events (fst (process_message caps now st' raw)))"
    and "snd (process_message caps now st raw) = snd (process_message caps now st' raw)"
  using assms
  by (auto simp: process_message_def Let_def skip_def sent_ids_append sent_ids_simps
      split: sum.splits if_splits)

text \<open>
  The replies for an identifier \<open>j\<close>, counted over one message. Once the ledger holds
  \<open>j\<close> no reply for it is sent. Before that a message adds at most one reply, and a reply
  comes with the commit of \<open>j\<close>, or with a failed write and the abort of the cycle.
\<close>

lemma pm_count_known:
  assumes "isProcessed (ledger st) j"
  shows "count_list (events (fst (process_message caps now st raw))) (Sent j) =
           count_list (events st) (Sent j)"
    and "isProcessed (ledger (fst (process_message caps now st raw))) j"
  using assms
  by (auto simp: process_message_def Let_def skip_def isProcessed_commit
      split: sum.splits if_splits)

lemma pm_count_new:
  assumes "\<not> isProcessed (ledger st) j"
  shows "(count_list (events (fst (process_message caps now st raw))) (Sent j) =
            count_list (events st) (Sent j) \<and>
          \<not> isProcessed (ledger (fst (process_message caps now st raw))) j) \<or>
         (count_list (events (fst (process_message caps now st raw))) (Sent j) =
            count_list (events st) (Sent j) + 1 \<and>
          isProcessed (ledger (fst (process_message caps now st raw))) j \<and>
          persist caps j now \<and> snd (process_message caps now st raw) = None) \<or>
         (count_list (events (fst (process_message caps now st raw))) (Sent j) =
            count_list (events st) (Sent j) + 1 \<and>
          \<not> isProcessed (ledger (fst (process_message caps now st raw))) j \<and>
          \<not> persist caps j now \<and>
          snd (process_message caps now st raw) = Some LedgerWriteError)"
  using assms
  by (auto simp: process_message_def Let_def skip_def isProcessed_commit
      split: sum.splits if_splits)

text \<open>The same for a batch, by induction on the batch.\<close>

lemma run_cycle_append:
  "run_cycle caps now st (xs @ zs) =
     (case run_cycle caps now st xs of
        (st', Completed) \<Rightarrow> run_cycle caps now st' zs
      | (st', Aborted e) \<Rightarrow> (st', Aborted e))"
  by (induction xs arbitrary: st) (auto split: prod.splits option.splits)

lemma run_cycle_same:
  assumes "ledger st = ledger st'" "sent_ids (events st) = sent_ids (events st')"
  shows "ledger (fst (run_cycle caps now st batch)) = ledger (fst (run_cycle caps now st' batch)) \<and>
         sent_ids (events (fst (run_cycle caps now st batch))) =
           sent_ids (events (fst (run_cycle caps now st' batch))) \<and>
         snd (run_cycle caps now st batch) = snd (run_cycle caps now st' batch)"
  using assms
proof (induction batch arbitrary: st st')
  case Nil
  then show ?case by simp
next
  case (Cons raw rest)
  obtain s1 o1 where p1: "process_message caps now st raw = (s1, o1)" by (cases "process_message caps now st raw")
  obtain s2 o2 where p2: "process_message caps now st' raw = (s2, o2)" by (cases "process_message caps now st' raw")
  have l: "ledger s1 = ledger s2" and e: "sent_ids (events s1) = sent_ids (events s2)" and o: "o1 = o2"
    using pm_same[OF Cons.prems, of caps now raw] p1 p2 by simp_all
  have p2': "process_message caps now st' raw = (s2, o1)" using p2 o by simp
  show ?case
  proof (cases o1)
    case None
    with p1 p2' Cons.IH[OF l e] show ?thesis by simp
  next
    case (Some err)
    with p1 p2' l e show ?thesis by simp
  qed
qed

lemma run_cycle_ledger_keeps:
  "ledger st j = Some t \<Longrightarrow> ledger (fst (run_cycle caps now st batch)) j = Some t"
proof (induction batch arbitrary: st)
  case Nil
  then show ?case by simp
next
  case (Cons raw rest)
  obtain s1 o1 where p1: "process_message caps now st raw = (s1, o1)" by (cases "process_message caps now st raw")
  have k: "ledger s1 j = Some t" using pm_ledger_keeps[OF Cons.prems, of caps now raw] p1 by simp
  show ?case using p1 k Cons.IH[OF k] by (cases o1) simp_all
qed

lemma run_cycle_events_extend:
  "set (events st) \<subseteq> set (events (fst (run_cycle caps now st batch)))"
proof (induction batch arbitrary: st)
  case Nil
  then show ?case by simp
next
  case (Cons raw rest)
  obtain s1 o1 where p1: "process_message caps now st raw = (s1, o1)" by (cases "process_message caps now st raw")
  have k: "set (events st) \<subseteq> set (events s1)" using pm_events_extend[of caps now st raw] p1 by auto
  show ?case using p1 k Cons.IH[of s1] by (cases o1) auto
qed

lemma isProcessed_keeps:
  "isProcessed (ledger st) j \<Longrightarrow> isProcessed (ledger (fst (run_cycle caps now st batch))) j"
  using run_cycle_ledger_keeps[of st j _ caps now batch] by (auto simp: isProcessed_def)

lemma run_cycle_processed_origin:
  "isProcessed (ledger (fst (run_cycle caps now st batch))) j
   \<Longrightarrow> isProcessed (ledger st) j \<or> j \<in> raw_id ` set batch"
proof (induction batch arbitrary: st)
  case Nil
  then show ?case by simp
next
  case (Cons raw rest)
  obtain s1 o1 where p1: "process_message caps now st raw = (s1, o1)" by (cases "process_message caps now st raw")
  have step: "isProcessed (ledger s1) j \<Longrightarrow> isProcessed (ledger st) j \<or> j = raw_id raw"
    using pm_processed_origin[of caps now st raw j] p1 by auto
  show ?case
  proof (cases o1)
    case None
    with p1 Cons.prems have "isProcessed (ledger (fst (run_cycle caps now s1 rest))) j" by simp
    from Cons.IH[OF this] step show ?thesis by auto
  next
    case (Some err)
    with p1 Cons.prems have "isProcessed (ledger s1) j" by simp
    with step show ?thesis by auto
  qed
qed

lemma run_cycle_answered:
  assumes "\<forall>m\<in>set batch. \<not> refused caps m \<and>
                         (answered caps m \<longrightarrow> persist caps (raw_id m) now)"
  shows "snd (run_cycle caps now st batch) = Completed \<and>
         (\<forall>m\<in>set batch. answered caps m \<longrightarrow>
            isProcessed (ledger (fst (run_cycle caps now st batch))) (raw_id m) \<and>
            (isProcessed (ledger st) (raw_id m) \<or>
             Sent (raw_id m) \<in> set (events (fst (run_cycle caps now st batch)))))"
  using assms
proof (induction batch arbitrary: st)
  case Nil
  then show ?case by simp
next
  case (Cons raw rest)
  obtain s1 o1 where p1: "process_message caps now st raw = (s1, o1)" by (cases "process_message caps now st raw")
  have w: "persist caps (raw_id raw) now" if "answered caps raw"
    using Cons.prems that by simp
  have o1: "o1 = None"
  proof (cases o1)
    case (Some e)
    with p1 have "refused caps raw \<or> (answered caps raw \<and> \<not> persist caps (raw_id raw) now)"
      using pm_abort[of caps now st raw e] by simp
    with Cons.prems show ?thesis by simp
  qed simp
  have rc: "run_cycle caps now st (raw # rest) = run_cycle caps now s1 rest"
    using p1 o1 by simp
  have ih: "snd (run_cycle caps now s1 rest) = Completed \<and>
         (\<forall>m\<in>set rest. answered caps m \<longrightarrow>
            isProcessed (ledger (fst (run_cycle caps now s1 rest))) (raw_id m) \<and>
            (isProcessed (ledger s1) (raw_id m) \<or>
             Sent (raw_id m) \<in> set (events (fst (run_cycle caps now s1 rest)))))"
    using Cons.IH[of s1] Cons.prems by simp
  have origin: "isProcessed (ledger s1) j \<Longrightarrow> isProcessed (ledger st) j \<or> Sent j \<in> set (events s1)" for j
    using pm_processed_origin[of caps now st raw j] p1 by auto
  have ext: "set (events s1) \<subseteq> set (events (fst (run_cycle caps now s1 rest)))"
    by (rule run_cycle_events_extend)
  have hd: "isProcessed (ledger (fst (run_cycle caps now s1 rest))) (raw_id raw) \<and>
            (isProcessed (ledger st) (raw_id raw) \<or>
             Sent (raw_id raw) \<in> set (events (fst (run_cycle caps now s1 rest))))"
    if a: "answered caps raw"
  proof -
    have "isProcessed (ledger s1) (raw_id raw)" using pm_answered(2)[OF a w[OF a], of st] p1 by simp
    then have 1: "isProcessed (ledger (fst (run_cycle caps now s1 rest))) (raw_id raw)"
      by (rule isProcessed_keeps)
    have "isProcessed (ledger st) (raw_id raw) \<or> Sent (raw_id raw) \<in> set (events s1)"
      using pm_answered(3)[OF a w[OF a], of st] p1 by simp
    with ext 1 show ?thesis by auto
  qed
  have tl: "isProcessed (ledger (fst (run_cycle caps now s1 rest))) (raw_id m) \<and>
            (isProcessed (ledger st) (raw_id m) \<or>
             Sent (raw_id m) \<in> set (events (fst (run_cycle caps now s1 rest))))"
    if m: "m \<in> set rest" and a: "answered caps m" for m
  proof -
    from ih m a have 1: "isProcessed (ledger (fst (run_cycle caps now s1 rest))) (raw_id m)"
      and 2: "isProcessed (ledger s1) (raw_id m) \<or>
              Sent (raw_id m) \<in> set (events (fst (run_cycle caps now s1 rest)))" by auto
    from 2 origin[of "raw_id m"] ext 1 show ?thesis by auto
  qed
  show ?case unfolding rc using ih hd tl by auto
qed

text \<open>
  The replies for \<open>j\<close>, counted over a cycle: none once the ledger holds \<open>j\<close>; before
  that at most one, and where one is sent the ledger holds \<open>j\<close> afterwards unless the
  write for \<open>j\<close> fails in this cycle.
\<close>

lemma run_cycle_count_known:
  assumes "isProcessed (ledger st) j"
  shows "count_list (events (fst (run_cycle caps now st batch))) (Sent j) =
           count_list (events st) (Sent j) \<and>
         isProcessed (ledger (fst (run_cycle caps now st batch))) j"
  using assms
proof (induction batch arbitrary: st)
  case Nil
  then show ?case by simp
next
  case (Cons raw rest)
  obtain s1 o1 where p1: "process_message caps now st raw = (s1, o1)" by (cases "process_message caps now st raw")
  have a: "count_list (events s1) (Sent j) = count_list (events st) (Sent j)"
    and b: "isProcessed (ledger s1) j"
    using pm_count_known[OF Cons.prems, of caps now raw] p1 by simp_all
  show ?case using p1 a b Cons.IH[OF b] by (cases o1) simp_all
qed

lemma run_cycle_count_new:
  assumes "\<not> isProcessed (ledger st) j"
  shows "count_list (events (fst (run_cycle caps now st batch))) (Sent j)
           \<le> count_list (events st) (Sent j) + 1 \<and>
         (persist caps j now \<longrightarrow>
            count_list (events (fst (run_cycle caps now st batch))) (Sent j) =
              count_list (events st) (Sent j) \<or>
            isProcessed (ledger (fst (run_cycle caps now st batch))) j) \<and>
         (\<not> persist caps j now \<longrightarrow>
            \<not> isProcessed (ledger (fst (run_cycle caps now st batch))) j)"
  using assms
proof (induction batch arbitrary: st)
  case Nil
  then show ?case by simp
next
  case (Cons raw rest)
  obtain s1 o1 where p1: "process_message caps now st raw = (s1, o1)" by (cases "process_message caps now st raw")
  from pm_count_new[OF Cons.prems, of caps now raw] p1
  consider
      (none) "count_list (events s1) (Sent j) = count_list (events st) (Sent j)"
        "\<not> isProcessed (ledger s1) j"
    | (committed) "count_list (events s1) (Sent j) = count_list (events st) (Sent j) + 1"
        "isProcessed (ledger s1) j" "persist caps j now" "o1 = None"
    | (failed) "count_list (events s1) (Sent j) = count_list (events st) (Sent j) + 1"
        "\<not> isProcessed (ledger s1) j" "\<not> persist caps j now" "o1 = Some LedgerWriteError"
    by auto
  then show ?case
  proof cases
    case none
    show ?thesis
    proof (cases o1)
      case None
      with p1 none Cons.IH[OF none(2)] show ?thesis by simp
    next
      case (Some e)
      with p1 none show ?thesis by simp
    qed
  next
    case committed
    with p1 run_cycle_count_known[OF committed(2), of caps now rest] show ?thesis by simp
  next
    case failed
    with p1 show ?thesis by simp
  qed
qed

text \<open>
  Over a sequence of cycles: one reply, and one more for each cycle but the last in
  which the write for \<open>j\<close> fails.
\<close>

lemma write_failures_Cons:
  "write_failures j ((caps, now, batch) # cycles) =
     (if persist caps j now then 0 else 1) + write_failures j cycles"
  by (simp add: write_failures_def)

lemma write_failures_none:
  "\<forall>(caps, now, batch)\<in>set cycles. persist caps j now \<Longrightarrow> write_failures j cycles = 0"
  by (induction cycles) (auto simp: write_failures_def)

lemma run_cycles_count:
  "count_list (events (run_cycles st cycles)) (Sent j)
     \<le> count_list (events st) (Sent j) +
       (if isProcessed (ledger st) j then 0 else 1 + write_failures j (butlast cycles))"
proof (induction cycles arbitrary: st)
  case Nil
  show ?case by simp
next
  case (Cons c cycles)
  obtain caps now batch where c: "c = (caps, now, batch)" by (cases c)
  define s1 where "s1 = fst (run_cycle caps now st batch)"
  have rc: "run_cycles st (c # cycles) = run_cycles s1 cycles"
    by (simp add: c s1_def)
  note ih = Cons.IH[of s1]
  show ?case
  proof (cases "isProcessed (ledger st) j")
    case True
    from run_cycle_count_known[OF True, of caps now batch]
    have "count_list (events s1) (Sent j) = count_list (events st) (Sent j)"
      and "isProcessed (ledger s1) j" by (simp_all add: s1_def)
    with ih True show ?thesis unfolding rc by simp
  next
    case False
    note step = run_cycle_count_new[OF False, of caps now batch, folded s1_def]
    show ?thesis
    proof (cases "cycles = []")
      case True
      with step False show ?thesis unfolding rc by simp
    next
      case more: False
      have wf: "write_failures j (butlast (c # cycles)) =
                  (if persist caps j now then 0 else 1) + write_failures j (butlast cycles)"
        using more by (simp add: c write_failures_Cons)
      show ?thesis
      proof (cases "persist caps j now")
        case True
        with step have "count_list (events s1) (Sent j) = count_list (events st) (Sent j) \<or>
            isProcessed (ledger s1) j"
          and "count_list (events s1) (Sent j) \<le> count_list (events st) (Sent j) + 1"
          by simp_all
        with ih False True wf show ?thesis unfolding rc by (auto split: if_splits)
      next
        case nw: False
        with step have "\<not> isProcessed (ledger s1) j"
          and "count_list (events s1) (Sent j) \<le> count_list (events st) (Sent j) + 1"
          by simp_all
        with ih False nw wf show ?thesis unfolding rc by simp
      qed
    qed
  qed
qed

lemma stage_failure_not_refused: "stage_failure caps raw \<Longrightarrow> \<not> refused caps raw"
  by (auto simp: stage_failure_def refused_def split: sum.splits)

lemma stage_failure_not_answered: "stage_failure caps raw \<Longrightarrow> \<not> answered caps raw"
  by (auto simp: stage_failure_def answered_def split: sum.splits)

lemma run_cycle_without_failure:
  assumes f: "stage_failure caps bad"
  shows "ledger (fst (run_cycle caps now st (xs @ bad # ys))) =
           ledger (fst (run_cycle caps now st (xs @ ys))) \<and>
         sent_ids (events (fst (run_cycle caps now st (xs @ bad # ys)))) =
           sent_ids (events (fst (run_cycle caps now st (xs @ ys)))) \<and>
         snd (run_cycle caps now st (xs @ bad # ys)) = snd (run_cycle caps now st (xs @ ys))"
proof -
  obtain s0 o0 where r0: "run_cycle caps now st xs = (s0, o0)" by (cases "run_cycle caps now st xs")
  show ?thesis
  proof (cases o0)
    case (Aborted e)
    with r0 show ?thesis by (simp add: run_cycle_append)
  next
    case Completed
    obtain s1 o1 where p1: "process_message caps now s0 bad = (s1, o1)"
      by (cases "process_message caps now s0 bad")
    have o1: "o1 = None" and l: "ledger s1 = ledger s0"
      and e: "sent_ids (events s1) = sent_ids (events s0)"
      using pm_stage_failure[OF f, of now s0] p1 by simp_all
    have "run_cycle caps now st (xs @ bad # ys) = run_cycle caps now s1 ys"
      using r0 Completed p1 o1 by (simp add: run_cycle_append)
    moreover have "run_cycle caps now st (xs @ ys) = run_cycle caps now s0 ys"
      using r0 Completed by (simp add: run_cycle_append)
    ultimately show ?thesis using run_cycle_same[OF l e, of caps now ys] by simp
  qed
qed

lemma example_twice:
  "events (run_cycles \<lparr> ledger = Map.empty, events = [] \<rparr>
      [(caps_example, 10, [raw_example ''1'' [72], raw_example ''1'' [72]]),
       (caps_example, 20, [raw_example ''1'' [72]])]) =
   [Sent ''1'', Committed ''1'', MarkRead ''1'', MarkRead ''1'', MarkRead ''1'']"
  by (simp add: process_message_def caps_example_def raw_example_def build_reply_def retrieve_def
      isProcessed_def commit_def Let_def)

lemma example_batch:
  "run_cycle caps_example 10 \<lparr> ledger = Map.empty, events = [] \<rparr>
      [raw_example ''1'' [72], raw_example ''2'' [], raw_example ''3'' [72]] =
   (\<lparr> ledger = [''1'' \<mapsto> 10, ''3'' \<mapsto> 10],
      events = [Sent ''1'', Committed ''1'', MarkRead ''1'', Skipped ''2'' ParseError,
                Sent ''3'', Committed ''3'', MarkRead ''3''] \<rparr>, Completed)"
  by (simp add: process_message_def caps_example_def raw_example_def build_reply_def retrieve_def
      isProcessed_def commit_def Let_def skip_def)

text \<open>
  With a persistence layer whose writes fail, the first reply goes out and the cycle is
  aborted: nothing is committed or marked read, and the other messages wait for the next
  cycle.
\<close>

lemma example_write_failure:
  "run_cycle caps_write_fails 10 \<lparr> ledger = Map.empty, events = [] \<rparr>
      [raw_example ''1'' [72], raw_example ''2'' [], raw_example ''3'' [72]] =
   (\<lparr> ledger = Map.empty, events = [Sent ''1''] \<rparr>, Aborted LedgerWriteError)"
  by (simp add: process_message_def caps_write_fails_def caps_example_def raw_example_def
      build_reply_def retrieve_def isProcessed_def commit_def Let_def skip_def)

lemma ucd_excerpt_scalar: "ucd_scalar ucd_excerpt"
  by (auto simp: ucd_scalar_def ucd_excerpt_def scalar_value_def)

lemma ucd_excerpt_spaces: "ucd_spaces ucd_excerpt"
  by (auto simp: ucd_spaces_def ucd_excerpt_def exotic_space_def SPACE_def NO_BREAK_SPACE_def)

section \<open>Claims about the code\<close>

text \<open>
  C9. Constructing the client raises \<open>ValueError\<close> exactly when \<open>GMAIL_USER\<close> or
  \<open>GMAIL_APP_PASS\<close> is unset or empty. When both are non-empty the constructor returns
  the client with the two credentials and the name of the ledger file, and in either case
  it has performed no network operation.
\<close>

theorem EmailClient_init_ValueError_iff:
  "((\<exists>msg. fst (EmailClient_init env) = Inl (ValueError msg)) =
      (env ''GMAIL_USER'' = None \<or> env ''GMAIL_USER'' = Some [] \<or>
       env ''GMAIL_APP_PASS'' = None \<or> env ''GMAIL_APP_PASS'' = Some [])) \<and>
   ((\<exists>usr pw. usr \<noteq> [] \<and> pw \<noteq> [] \<and>
        env ''GMAIL_USER'' = Some usr \<and> env ''GMAIL_APP_PASS'' = Some pw) \<longrightarrow>
      EmailClient_init env =
        (Inr \<lparr> gmail_user = env ''GMAIL_USER'', gmail_app_pass = env ''GMAIL_APP_PASS'',
               processed_file = ''processed_messages.json'' \<rparr>, [])) \<and>
   snd (EmailClient_init env) = []"
proof -
  have t: "truthy x = (x \<noteq> None \<and> x \<noteq> Some [])" for x
    by (cases x) simp_all
  show ?thesis
    by (auto simp: EmailClient_init_def getenv_def Let_def t)
qed

theorem EmailClient_init_ValueError_iff_witness:
  "EmailClient_init [''GMAIL_USER'' \<mapsto> ''alan@gmail.com'', ''GMAIL_APP_PASS'' \<mapsto> ''abcdefghijklmnop''] =
     (Inr \<lparr> gmail_user = Some ''alan@gmail.com'', gmail_app_pass = Some ''abcdefghijklmnop'',
            processed_file = ''processed_messages.json'' \<rparr>, []) \<and>
   (\<exists>msg. fst (EmailClient_init [''GMAIL_USER'' \<mapsto> ''alan@gmail.com'', ''GMAIL_APP_PASS'' \<mapsto> []]) =
      Inl (ValueError msg))"
  using EmailClient_init_ValueError_iff
          [of "[''GMAIL_USER'' \<mapsto> ''alan@gmail.com'', ''GMAIL_APP_PASS'' \<mapsto> ''abcdefghijklmnop'']"]
        EmailClient_init_ValueError_iff
          [of "[''GMAIL_USER'' \<mapsto> ''alan@gmail.com'', ''GMAIL_APP_PASS'' \<mapsto> []]"]
  by simp

text \<open>
  C10. \<open>clean_str\<close> returns a \<open>str\<close> and raises nothing on \<open>None\<close>, on every
  \<open>bytes\<close> value and on every \<open>str\<close> value: for \<open>None\<close> the empty string; for
  bytes the decoding with the handler \<open>replace\<close> returns a text whatever the bytes are.
\<close>

theorem clean_str_total:
  "clean_str u PyNone = Inr [] \<and>
   (\<exists>d. utf8_decode Replace b = Inr d \<and> clean_str u (PyBytes b) = clean_str u (PyStr d)) \<and>
   (\<exists>t. clean_str u (PyBytes b) = Inr t) \<and>
   (\<exists>t. clean_str u (PyStr s) = Inr t)"
proof -
  obtain d where d: "utf8_decode Replace b = Inr d"
    using utf8_decode_replace_total[of b] by blast
  have "clean_str u PyNone = Inr []" by (simp add: clean_str_def)
  moreover have "clean_str u (PyBytes b) = clean_str u (PyStr d)"
    using d by (rule clean_str_PyBytes)
  moreover have "\<exists>t. clean_str u (PyStr x) = Inr t" for x
    by (simp add: clean_str_PyStr)
  ultimately show ?thesis using d by simp
qed

text \<open>
  The argument types the claim does not name are outside it: on an \<open>int\<close>, for one,
  the call of \<open>unicodedata.normalize\<close> raises \<open>TypeError\<close>.
\<close>

lemma clean_str_int: "clean_str u (PyInt i) = Inl TypeError"
  by (simp add: clean_str_def unicodedata_normalize_def)

text \<open>
  C6. For every byte sequence \<open>bs\<close>: decoding with \<open>replace\<close> never fails, and the
  text \<open>d\<close> it yields is \<open>bs\<close> with every ill-formed byte sequence replaced by U+FFFD
  and every well-formed one decoded (\<open>utf8_replaced\<close>): \<open>d\<close> holds scalar values only,
  is \<open>s\<close> where \<open>bs\<close> is the UTF-8 encoding of \<open>s\<close>, and holds a U+FFFD unless \<open>bs\<close>
  is the UTF-8 encoding of \<open>d\<close>. \<open>clean_str\<close> returns the text \<open>t\<close> that is \<open>d\<close>
  normalized with its U+00A0 replaced by spaces; \<open>t\<close> holds no U+00A0. Where the database
  maps scalar values to scalar values, \<open>t\<close> holds scalar values only, and its UTF-8
  encoding is read back by the strict decoder: it holds no invalid byte sequence.
\<close>

theorem clean_str_bytes_clean:
  "\<exists>d t. utf8_decode Replace bs = Inr d \<and> utf8_replaced bs d \<and> list_all scalar_value d \<and>
          (list_all scalar_value s \<and> bs = utf8_encode s \<longrightarrow> d = s) \<and>
          (REPLACEMENT_CHARACTER \<notin> set d \<longrightarrow> bs = utf8_encode d) \<and>
          t = str_replace (compose u (canonical_order u (decompose u True d)))
                NO_BREAK_SPACE SPACE \<and>
          clean_str u (PyBytes bs) = Inr t \<and> NO_BREAK_SPACE \<notin> set t \<and>
          (ucd_scalar u \<longrightarrow>
             list_all scalar_value t \<and> utf8_decode Strict (utf8_encode t) = Inr t)"
proof -
  obtain d where d: "utf8_decode Replace bs = Inr d" and rd: "utf8_replaced bs d"
    using utf8_decode_replaced[of bs] by blast
  have sd: "list_all scalar_value d"
    using utf8_decode_replace_total[of bs] d by simp
  have valid: "d = s" if "list_all scalar_value s" "bs = utf8_encode s"
    using rd that by (rule utf8_replaced_well_formed)
  have marked: "bs = utf8_encode d" if "REPLACEMENT_CHARACTER \<notin> set d"
    using rd that by (rule utf8_replaced_unmarked)
  define n where "n = compose u (canonical_order u (decompose u True d))"
  define t where "t = str_replace n NO_BREAK_SPACE SPACE"
  have r: "clean_str u (PyBytes bs) = Inr t"
    using clean_str_PyBytes[OF d] by (simp add: clean_str_PyStr t_def n_def)
  have nb: "NO_BREAK_SPACE \<notin> set t"
    unfolding t_def by (rule str_replace_removes[OF nbsp_not_space])
  have st: "list_all scalar_value t" if wf: "ucd_scalar u"
  proof -
    have dec: "\<And>c. scalar_value c \<Longrightarrow> list_all scalar_value (full_decomposition u True c)"
      and comp: "\<And>a b p. primary_composite u a b = Some p \<Longrightarrow> scalar_value p"
      using wf unfolding ucd_scalar_def by blast+
    have "list_all scalar_value (decompose u True d)"
      using dec sd by (rule decompose_all)
    then have "list_all scalar_value (canonical_order u (decompose u True d))"
      by (simp add: canonical_order_all)
    then have "list_all scalar_value n"
      unfolding n_def using comp by (intro compose_all)
    moreover have "scalar_value SPACE" by (simp add: scalar_value_def SPACE_def)
    ultimately show ?thesis unfolding t_def by (intro str_replace_all)
  qed
  have rt: "utf8_decode Strict (utf8_encode t) = Inr t" if "list_all scalar_value t"
    using that by (rule utf8_decode_encode)
  have tn: "t = str_replace (compose u (canonical_order u (decompose u True d)))
                  NO_BREAK_SPACE SPACE"
    by (simp add: t_def n_def)
  show ?thesis using d rd sd valid marked tn r nb st rt by blast
qed

theorem clean_str_bytes_clean_witness:
  "ucd_scalar ucd_excerpt \<and>
   list_all scalar_value [72, 233] \<and> [72, 195, 169] = utf8_encode [72, 233] \<and>
   REPLACEMENT_CHARACTER \<notin> set [72, 233] \<and>
   utf8_decode Replace [72, 195, 169] = Inr [72, 233] \<and>
   (\<exists>d t. utf8_decode Replace [72, 194, 160, 255, 105] = Inr d \<and>
      utf8_replaced [72, 194, 160, 255, 105] d \<and> list_all scalar_value d \<and>
      t = str_replace (compose ucd_excerpt (canonical_order ucd_excerpt
            (decompose ucd_excerpt True d))) NO_BREAK_SPACE SPACE \<and>
      clean_str ucd_excerpt (PyBytes [72, 194, 160, 255, 105]) = Inr t \<and>
      NO_BREAK_SPACE \<notin> set t \<and> list_all scalar_value t \<and>
      utf8_decode Strict (utf8_encode t) = Inr t)"
proof -
  have s: "list_all scalar_value [72, 233]" by (simp add: scalar_value_def)
  have e: "[72, 195, 169] = utf8_encode [72, 233]"
    by (simp add: utf8_encode_def utf8_encode_cp_def)
  have m: "REPLACEMENT_CHARACTER \<notin> set [72, 233]"
    by (simp add: REPLACEMENT_CHARACTER_def)
  have v: "utf8_decode Replace [72, 195, 169] = Inr [72, 233]"
    using clean_str_bytes_clean[of "[72, 195, 169]" "[72, 233]" ucd_excerpt] s e by auto
  show ?thesis
    using clean_str_bytes_clean[of "[72, 194, 160, 255, 105]" "[]" ucd_excerpt]
      ucd_excerpt_scalar s e m v
    by blast
qed

text \<open>What the decoder and \<open>clean_str\<close> return on that input: "H", U+00A0, the byte FF, "i".\<close>

lemma clean_str_bytes_example:
  "utf8_decode Replace [72, 194, 160, 255, 105] = Inr [72, 160, 65533, 105] \<and>
   clean_str ucd_excerpt (PyBytes [72, 194, 160, 255, 105]) = Inr [72, 32, 65533, 105]"
  by (simp add: clean_str_def unicodedata_normalize_def is_continuation_def
      REPLACEMENT_CHARACTER_def decompose_def canonical_order_def compose_def
      ucd_excerpt_def exotic_space_def str_replace_def NO_BREAK_SPACE_def SPACE_def)

text \<open>
  C7, as the specification words it: the output of \<open>clean_str\<close> is the canonical
  composition (NFC) of the input with the whitespace collapsed. The code asks for NFKC,
  which also replaces compatibility characters: on the ligature U+FB01 \<open>clean_str\<close>
  returns "fi", and the canonical composition leaves the ligature as it is.
\<close>

theorem clean_str_not_canonical_composition:
  "clean_str ucd_excerpt (PyStr [64257]) \<noteq> spec_normal_form ucd_excerpt [64257]"
  by (simp add: clean_str_def spec_normal_form_def collapse_whitespace_def
      unicodedata_normalize_def decompose_def canonical_order_def compose_def
      ucd_excerpt_def exotic_space_def str_replace_def NO_BREAK_SPACE_def SPACE_def)

lemma clean_str_ligature:
  "clean_str ucd_excerpt (PyStr [64257]) = Inr [102, 105] \<and>
   spec_normal_form ucd_excerpt [64257] = Inr [64257]"
  by (simp add: clean_str_def spec_normal_form_def collapse_whitespace_def
      unicodedata_normalize_def decompose_def canonical_order_def compose_def
      ucd_excerpt_def exotic_space_def str_replace_def NO_BREAK_SPACE_def SPACE_def)

text \<open>
  C7, amended: the output of \<open>clean_str\<close> on a string is its compatibility composition
  (NFKC: compatibility decomposition, canonical ordering, canonical composition) with
  every U+00A0 replaced by U+0020; and where the database gives the non-breaking and
  exotic spaces the compatibility decomposition U+0020, it is the NFKC form of the input
  after that whitespace replacement.
\<close>

theorem clean_str_compatibility_composition:
  "clean_str u (PyStr s) =
     Inr (str_replace (compose u (canonical_order u (decompose u True s))) NO_BREAK_SPACE SPACE) \<and>
   (ucd_spaces u \<longrightarrow>
      clean_str u (PyStr s) = unicodedata_normalize u ''NFKC'' (PyStr (collapse_whitespace s)))"
proof (intro conjI impI)
  show "clean_str u (PyStr s) =
     Inr (str_replace (compose u (canonical_order u (decompose u True s))) NO_BREAK_SPACE SPACE)"
    by (rule clean_str_PyStr)
next
  assume f: "ucd_spaces u"
  have sp: "\<And>c. c = SPACE \<or> c = NO_BREAK_SPACE \<or> exotic_space c
              \<Longrightarrow> full_decomposition u True c = [SPACE]"
    and dec: "\<And>c. NO_BREAK_SPACE \<notin> set (full_decomposition u True c)"
    and comp: "\<And>a b. primary_composite u a b \<noteq> Some NO_BREAK_SPACE"
    using f unfolding ucd_spaces_def by blast+
  have same: "decompose u True (collapse_whitespace s) = decompose u True s"
    by (induction s) (auto simp: decompose_def collapse_whitespace_def sp)
  have "list_all (\<lambda>c. c \<noteq> NO_BREAK_SPACE) (decompose u True s)"
    using dec by (auto simp: decompose_def list_all_iff)
  then have "list_all (\<lambda>c. c \<noteq> NO_BREAK_SPACE) (canonical_order u (decompose u True s))"
    by (simp add: canonical_order_all)
  then have "list_all (\<lambda>c. c \<noteq> NO_BREAK_SPACE) (compose u (canonical_order u (decompose u True s)))"
    using comp by (intro compose_all) auto
  then have "NO_BREAK_SPACE \<notin> set (compose u (canonical_order u (decompose u True s)))"
    by (auto simp: list_all_iff)
  then have "str_replace (compose u (canonical_order u (decompose u True s))) NO_BREAK_SPACE SPACE
             = compose u (canonical_order u (decompose u True s))"
    by (rule str_replace_absent)
  then show "clean_str u (PyStr s) = unicodedata_normalize u ''NFKC'' (PyStr (collapse_whitespace s))"
    by (simp add: clean_str_PyStr unicodedata_normalize_def same)
qed

theorem clean_str_compatibility_composition_witness:
  "ucd_spaces ucd_excerpt \<and>
   clean_str ucd_excerpt (PyStr [101, 769, 160, 64257, 8195]) =
     unicodedata_normalize ucd_excerpt ''NFKC'' (PyStr (collapse_whitespace [101, 769, 160, 64257, 8195]))"
  using clean_str_compatibility_composition[of ucd_excerpt "[101, 769, 160, 64257, 8195]"]
        ucd_excerpt_spaces
  by blast

lemma clean_str_compatibility_example:
  "clean_str ucd_excerpt (PyStr [101, 769, 160, 64257, 8195]) = Inr [233, 32, 102, 105, 32]"
  by (simp add: clean_str_def unicodedata_normalize_def decompose_def canonical_order_def
      compose_def ucd_excerpt_def exotic_space_def str_replace_def NO_BREAK_SPACE_def SPACE_def)

section \<open>Claims settled on the model of the specification\<close>

text \<open>
  C1, as the specification words it: running the pipeline twice on a message, in two
  cycles, sends at most one reply. The specification also has a ledger write that fails
  abort the cycle, after the reply has gone out and before the message is marked read:
  the ledger does not hold the identifier, the next cycle fetches the message again and
  replies again.
\<close>

theorem duplicate_reply_after_failed_write:
  "run_cycle caps_write_fails 10 \<lparr> ledger = Map.empty, events = [] \<rparr> [raw_example ''1'' [72]] =
     (\<lparr> ledger = Map.empty, events = [Sent ''1''] \<rparr>, Aborted LedgerWriteError) \<and>
   events (fst (run_cycle caps_example 20
      (fst (run_cycle caps_write_fails 10 \<lparr> ledger = Map.empty, events = [] \<rparr>
         [raw_example ''1'' [72]])) [raw_example ''1'' [72]])) =
     [Sent ''1'', Sent ''1'', Committed ''1'', MarkRead ''1''] \<and>
   count_list (events (fst (run_cycle caps_example 20
      (fst (run_cycle caps_write_fails 10 \<lparr> ledger = Map.empty, events = [] \<rparr>
         [raw_example ''1'' [72]])) [raw_example ''1'' [72]]))) (Sent ''1'') = 2"
  by (simp add: process_message_def caps_write_fails_def caps_example_def raw_example_def
      build_reply_def retrieve_def isProcessed_def commit_def Let_def)

text \<open>
  C1, amended. Committing an identifier the ledger already holds leaves the ledger as it
  is, and a second commit of an identifier changes nothing; a message the ledger knows is
  not answered again. In every sequence of polling cycles, over any batches and whatever
  the collaborators answer, the replies sent for an identifier are at most one, and one
  more for each cycle but the last in which the ledger write for it fails: at most one
  where no such write fails. Running the same message twice in one cycle sends at most
  one reply, and so does running it in two cycles where the write of the first does not
  fail.
\<close>

theorem replies_bounded_by_failed_writes:
  "commit (commit l i ts) i ts' = commit l i ts \<and>
   (isProcessed l i \<longrightarrow> commit l i ts = l) \<and>
   (isProcessed (ledger st) (raw_id raw) \<longrightarrow>
      sent_ids (events (fst (process_message caps now st raw))) = sent_ids (events st)) \<and>
   count_list (events (run_cycles \<lparr> ledger = l, events = [] \<rparr> cycles)) (Sent j)
     \<le> 1 + write_failures j (butlast cycles) \<and>
   ((\<forall>(c, t, b)\<in>set (butlast cycles). persist c j t) \<longrightarrow>
      count_list (events (run_cycles \<lparr> ledger = l, events = [] \<rparr> cycles)) (Sent j) \<le> 1) \<and>
   count_list (events (fst (run_cycle caps now \<lparr> ledger = l, events = [] \<rparr> [raw, raw])))
     (Sent (raw_id raw)) \<le> 1 \<and>
   (persist caps (raw_id raw) now \<longrightarrow>
      count_list (events (fst (run_cycle (caps' :: 'a capabilities) now'
          (fst (run_cycle (caps :: 'a capabilities) now \<lparr> ledger = l, events = [] \<rparr> [raw])) [raw])))
        (Sent (raw_id raw)) \<le> 1)"
proof -
  have g: "count_list (events (run_cycles \<lparr> ledger = l, events = [] \<rparr> cs)) (Sent k)
             \<le> 1 + write_failures k (butlast cs)"
    for cs :: "('a capabilities \<times> timestamp \<times> raw_message list) list" and k
    using run_cycles_count[of "\<lparr> ledger = l, events = [] \<rparr>" cs k] by (simp split: if_splits)
  have all: "count_list (events (run_cycles \<lparr> ledger = l, events = [] \<rparr> cycles)) (Sent j)
               \<le> 1 + write_failures j (butlast cycles)"
    using run_cycles_count[of "\<lparr> ledger = l, events = [] \<rparr>" cycles j] by (simp split: if_splits)
  have none: "count_list (events (run_cycles \<lparr> ledger = l, events = [] \<rparr> cycles)) (Sent j) \<le> 1"
    if "\<forall>(c, t, b)\<in>set (butlast cycles). persist c j t"
    using all write_failures_none[OF that] by simp
  have same: "count_list (events (fst (run_cycle caps now \<lparr> ledger = l, events = [] \<rparr> [raw, raw])))
     (Sent (raw_id raw)) \<le> 1"
    using g[of "[(caps, now, [raw, raw])]" "raw_id raw"]
    by (simp del: run_cycle.simps add: write_failures_def)
  have across: "count_list (events (fst (run_cycle caps' now'
       (fst (run_cycle caps now \<lparr> ledger = l, events = [] \<rparr> [raw])) [raw])))
     (Sent (raw_id raw)) \<le> 1"
    if "persist caps (raw_id raw) now"
    using g[of "[(caps, now, [raw]), (caps', now', [raw])]" "raw_id raw"] that
    by (simp del: run_cycle.simps add: write_failures_def)
  show ?thesis
    using commit_idem[of l i ts ts'] commit_present[of l i ts] pm_known(3)[of st raw caps now]
      all none same across
    by blast
qed

theorem replies_bounded_by_failed_writes_witness:
  "isProcessed [''1'' \<mapsto> 10] ''1'' \<and>
   commit [''1'' \<mapsto> 10] ''1'' 20 = [''1'' \<mapsto> 10] \<and>
   sent_ids (events (fst (process_message caps_example 20
       \<lparr> ledger = [''1'' \<mapsto> 10], events = [Sent ''1'', Committed ''1'', MarkRead ''1''] \<rparr>
       (raw_example ''1'' [72])))) = [''1''] \<and>
   persist caps_example ''1'' 10 \<and>
   count_list (events (run_cycles \<lparr> ledger = Map.empty, events = [] \<rparr>
      [(caps_example, 10, [raw_example ''1'' [72], raw_example ''1'' [72]]),
       (caps_example, 20, [raw_example ''1'' [72]])])) (Sent ''1'') \<le> 1 \<and>
   persist caps_example (raw_id (raw_example ''1'' [72])) 10 \<and>
   count_list (events (fst (run_cycle caps_write_fails 20
       (fst (run_cycle caps_example 10 \<lparr> ledger = Map.empty, events = [] \<rparr>
          [raw_example ''1'' [72]])) [raw_example ''1'' [72]]))) (Sent ''1'') \<le> 1"
proof -
  have h: "isProcessed [''1'' \<mapsto> 10] ''1''" by (simp add: isProcessed_def)
  have s: "sent_ids [Sent ''1'', Committed ''1'', MarkRead ''1''] = [''1'']"
    by (simp add: sent_ids_simps)
  have r: "raw_id (raw_example ''1'' [72]) = ''1''"
    by (simp add: raw_example_def)
  have w: "\<forall>(c, t, b)\<in>set (butlast
       [(caps_example, 10, [raw_example ''1'' [72], raw_example ''1'' [72]]),
        (caps_example, 20, [raw_example ''1'' [72]])]). persist c ''1'' t"
      "persist caps_example (raw_id (raw_example ''1'' [72])) 10"
      "persist caps_example ''1'' 10"
    by (simp_all add: caps_example_def)
  show ?thesis
    using h s w
      replies_bounded_by_failed_writes[where l = "[''1'' \<mapsto> 10]" and i = "''1''" and ts = 20
        and ts' = 20
        and st = "\<lparr> ledger = [''1'' \<mapsto> 10], events = [Sent ''1'', Committed ''1'', MarkRead ''1''] \<rparr>"
        and raw = "raw_example ''1'' [72]" and caps = caps_example and now = 20
        and cycles = "[(caps_example, 10, [])]" and j = "''1''"
        and caps' = caps_example and now' = 20]
      replies_bounded_by_failed_writes[where l = Map.empty and i = "''1''" and ts = 10
        and ts' = 20
        and st = "\<lparr> ledger = Map.empty, events = [] \<rparr>"
        and raw = "raw_example ''1'' [72]" and caps = caps_example and now = 10
        and cycles = "[(caps_example, 10, [raw_example ''1'' [72], raw_example ''1'' [72]]),
          (caps_example, 20, [raw_example ''1'' [72]])]" and j = "''1''"
        and caps' = caps_write_fails and now' = 20]
    by (simp del: run_cycle.simps run_cycles.simps add: r)
qed

text \<open>
  C4. A message that fails in the parse, evaluate or generate stage does not abort the
  batch and is as if it were not in it: the ledger, the replies sent and the outcome of
  the cycle are those of the batch without it. Where no other message is refused
  authentication and no ledger write for a reply fails, the cycle completes and every
  other message that can be answered is committed, and replied to unless the ledger knew
  it before. The identifier of the
  failing message is not committed (no other message of the batch carrying it), and
  no entry the ledger held is lost or altered.
\<close>

theorem stage_failure_is_isolated:
  assumes f: "stage_failure caps bad"
  shows "ledger (fst (run_cycle caps now st (xs @ bad # ys))) =
           ledger (fst (run_cycle caps now st (xs @ ys))) \<and>
         sent_ids (events (fst (run_cycle caps now st (xs @ bad # ys)))) =
           sent_ids (events (fst (run_cycle caps now st (xs @ ys)))) \<and>
         snd (run_cycle caps now st (xs @ bad # ys)) = snd (run_cycle caps now st (xs @ ys)) \<and>
         ((\<forall>m\<in>set (xs @ ys). \<not> refused caps m \<and>
                                 (answered caps m \<longrightarrow> persist caps (raw_id m) now)) \<longrightarrow>
            snd (run_cycle caps now st (xs @ bad # ys)) = Completed \<and>
            (\<forall>m\<in>set (xs @ ys). answered caps m \<longrightarrow>
               isProcessed (ledger (fst (run_cycle caps now st (xs @ bad # ys)))) (raw_id m) \<and>
               (isProcessed (ledger st) (raw_id m) \<or>
                Sent (raw_id m) \<in> set (events (fst (run_cycle caps now st (xs @ bad # ys))))))) \<and>
         (\<not> isProcessed (ledger st) (raw_id bad) \<and> raw_id bad \<notin> raw_id ` set (xs @ ys) \<longrightarrow>
            \<not> isProcessed (ledger (fst (run_cycle caps now st (xs @ bad # ys)))) (raw_id bad)) \<and>
         (\<forall>i t. ledger st i = Some t \<longrightarrow>
            ledger (fst (run_cycle caps now st (xs @ bad # ys))) i = Some t)"
proof -
  let ?with = "run_cycle caps now st (xs @ bad # ys)"
  let ?without = "run_cycle caps now st (xs @ ys)"
  note same = run_cycle_without_failure[OF f, of now st xs ys]
  have others: "snd ?with = Completed \<and>
      (\<forall>m\<in>set (xs @ ys). answered caps m \<longrightarrow>
         isProcessed (ledger (fst ?with)) (raw_id m) \<and>
         (isProcessed (ledger st) (raw_id m) \<or> Sent (raw_id m) \<in> set (events (fst ?with))))"
    if nr: "\<forall>m\<in>set (xs @ ys). \<not> refused caps m \<and>
                                  (answered caps m \<longrightarrow> persist caps (raw_id m) now)"
  proof -
    have "\<forall>m\<in>set (xs @ bad # ys). \<not> refused caps m \<and>
                                     (answered caps m \<longrightarrow> persist caps (raw_id m) now)"
      using nr stage_failure_not_refused[OF f] stage_failure_not_answered[OF f] by auto
    from run_cycle_answered[OF this, of st] show ?thesis by auto
  qed
  have notc: "\<not> isProcessed (ledger (fst ?with)) (raw_id bad)"
    if "\<not> isProcessed (ledger st) (raw_id bad)" "raw_id bad \<notin> raw_id ` set (xs @ ys)"
  proof
    assume "isProcessed (ledger (fst ?with)) (raw_id bad)"
    then have "isProcessed (ledger (fst ?without)) (raw_id bad)" using same by simp
    from run_cycle_processed_origin[OF this] that show False by blast
  qed
  have keeps: "ledger (fst ?with) i = Some t" if "ledger st i = Some t" for i t
    using that by (rule run_cycle_ledger_keeps)
  show ?thesis using same others notc keeps by blast
qed

theorem stage_failure_is_isolated_witness:
  "stage_failure caps_example (raw_example ''2'' []) \<and>
   answered caps_example (raw_example ''1'' [72]) \<and>
   answered caps_example (raw_example ''3'' [72]) \<and>
   snd (run_cycle caps_example 10 \<lparr> ledger = Map.empty, events = [] \<rparr>
          [raw_example ''1'' [72], raw_example ''2'' [], raw_example ''3'' [72]]) = Completed \<and>
   isProcessed (ledger (fst (run_cycle caps_example 10 \<lparr> ledger = Map.empty, events = [] \<rparr>
          [raw_example ''1'' [72], raw_example ''2'' [], raw_example ''3'' [72]]))) ''1'' \<and>
   Sent ''1'' \<in> set (events (fst (run_cycle caps_example 10 \<lparr> ledger = Map.empty, events = [] \<rparr>
          [raw_example ''1'' [72], raw_example ''2'' [], raw_example ''3'' [72]]))) \<and>
   isProcessed (ledger (fst (run_cycle caps_example 10 \<lparr> ledger = Map.empty, events = [] \<rparr>
          [raw_example ''1'' [72], raw_example ''2'' [], raw_example ''3'' [72]]))) ''3'' \<and>
   Sent ''3'' \<in> set (events (fst (run_cycle caps_example 10 \<lparr> ledger = Map.empty, events = [] \<rparr>
          [raw_example ''1'' [72], raw_example ''2'' [], raw_example ''3'' [72]]))) \<and>
   \<not> isProcessed (ledger (fst (run_cycle caps_example 10 \<lparr> ledger = Map.empty, events = [] \<rparr>
          [raw_example ''1'' [72], raw_example ''2'' [], raw_example ''3'' [72]]))) ''2''"
proof -
  have f: "stage_failure caps_example (raw_example ''2'' [])"
    by (simp add: stage_failure_def caps_example_def raw_example_def)
  have a: "answered caps_example (raw_example ''1'' [72])" "answered caps_example (raw_example ''3'' [72])"
    by (simp_all add: answered_def caps_example_def raw_example_def build_reply_def retrieve_def)
  have r: "\<forall>m\<in>set ([raw_example ''1'' [72]] @ [raw_example ''3'' [72]]).
             \<not> refused caps_example m \<and>
             (answered caps_example m \<longrightarrow> persist caps_example (raw_id m) 10)"
    by (simp add: refused_def caps_example_def raw_example_def build_reply_def retrieve_def)
  have n: "\<not> isProcessed (ledger \<lparr> ledger = Map.empty, events = [] \<rparr>) (raw_id (raw_example ''2'' []))"
      "raw_id (raw_example ''2'' []) \<notin> raw_id ` set ([raw_example ''1'' [72]] @ [raw_example ''3'' [72]])"
      "\<not> isProcessed (ledger \<lparr> ledger = Map.empty, events = [] \<rparr>) (raw_id (raw_example ''1'' [72]))"
      "\<not> isProcessed (ledger \<lparr> ledger = Map.empty, events = [] \<rparr>) (raw_id (raw_example ''3'' [72]))"
    by (simp_all add: isProcessed_def raw_example_def)
  have ids: "raw_id (raw_example ''1'' [72]) = ''1''" "raw_id (raw_example ''2'' []) = ''2''"
      "raw_id (raw_example ''3'' [72]) = ''3''"
    by (simp_all add: raw_example_def)
  from stage_failure_is_isolated[OF f, of 10 "\<lparr> ledger = Map.empty, events = [] \<rparr>"
      "[raw_example ''1'' [72]]" "[raw_example ''3'' [72]]"] r n a
  have "snd (run_cycle caps_example 10 \<lparr> ledger = Map.empty, events = [] \<rparr>
          ([raw_example ''1'' [72]] @ raw_example ''2'' [] # [raw_example ''3'' [72]])) = Completed"
    and "\<forall>m\<in>set ([raw_example ''1'' [72]] @ [raw_example ''3'' [72]]). answered caps_example m \<longrightarrow>
           isProcessed (ledger (fst (run_cycle caps_example 10 \<lparr> ledger = Map.empty, events = [] \<rparr>
             ([raw_example ''1'' [72]] @ raw_example ''2'' [] # [raw_example ''3'' [72]])))) (raw_id m) \<and>
           (isProcessed (ledger \<lparr> ledger = Map.empty, events = [] \<rparr>) (raw_id m) \<or>
            Sent (raw_id m) \<in> set (events (fst (run_cycle caps_example 10 \<lparr> ledger = Map.empty, events = [] \<rparr>
             ([raw_example ''1'' [72]] @ raw_example ''2'' [] # [raw_example ''3'' [72]])))))"
    and "\<not> isProcessed (ledger (fst (run_cycle caps_example 10 \<lparr> ledger = Map.empty, events = [] \<rparr>
          ([raw_example ''1'' [72]] @ raw_example ''2'' [] # [raw_example ''3'' [72]])))) (raw_id (raw_example ''2'' []))"
    by blast+
  with f a n(3,4) show ?thesis by (simp del: run_cycle.simps add: ids)
qed

text \<open>
  C5. An index that holds as many chunks as \<open>rag_max_index_size\<close> allows refuses
  the ingestion of a further document and stays exactly as it is. More generally a
  refused ingestion never changes the index, no ingestion removes or alters a chunk the
  index held, and none changes the configured size.
\<close>

theorem ingest_at_capacity_fails:
  "(length (chunks idx) = rag_max_index_size idx \<longrightarrow>
      ingest caps now idx doc tps = (Inl IndexFull, idx)) \<and>
   (\<forall>e. fst (ingest caps now idx doc tps) = Inl e \<longrightarrow> snd (ingest caps now idx doc tps) = idx) \<and>
   take (length (chunks idx)) (chunks (snd (ingest caps now idx doc tps))) = chunks idx \<and>
   rag_max_index_size (snd (ingest caps now idx doc tps)) = rag_max_index_size idx"
proof (intro conjI allI impI)
  assume "length (chunks idx) = rag_max_index_size idx"
  then show "ingest caps now idx doc tps = (Inl IndexFull, idx)"
    by (simp add: ingest_def Let_def)
next
  fix e assume "fst (ingest caps now idx doc tps) = Inl e"
  then show "snd (ingest caps now idx doc tps) = idx" by (rule ingest_failure_unchanged)
next
  show "take (length (chunks idx)) (chunks (snd (ingest caps now idx doc tps))) = chunks idx"
    by (rule ingest_keeps_chunks)
next
  show "rag_max_index_size (snd (ingest caps now idx doc tps)) = rag_max_index_size idx"
    by (simp add: ingest_def Let_def)
qed

theorem ingest_at_capacity_fails_witness:
  "length (chunks \<lparr> chunks = replicate DEFAULT_RAG_MAX_INDEX_SIZE chunk_example,
                     rag_max_index_size = DEFAULT_RAG_MAX_INDEX_SIZE \<rparr>) =
     rag_max_index_size \<lparr> chunks = replicate DEFAULT_RAG_MAX_INDEX_SIZE chunk_example,
                          rag_max_index_size = DEFAULT_RAG_MAX_INDEX_SIZE \<rparr> \<and>
   ingest index_caps_example 5
     \<lparr> chunks = replicate DEFAULT_RAG_MAX_INDEX_SIZE chunk_example,
       rag_max_index_size = DEFAULT_RAG_MAX_INDEX_SIZE \<rparr> document_example [''AI''] =
     (Inl IndexFull,
      \<lparr> chunks = replicate DEFAULT_RAG_MAX_INDEX_SIZE chunk_example,
        rag_max_index_size = DEFAULT_RAG_MAX_INDEX_SIZE \<rparr>)"
  using ingest_at_capacity_fails[of
      "\<lparr> chunks = replicate DEFAULT_RAG_MAX_INDEX_SIZE chunk_example,
         rag_max_index_size = DEFAULT_RAG_MAX_INDEX_SIZE \<rparr>"
      index_caps_example 5 document_example "[''AI'']"]
  by simp

text \<open>Below its capacity the same index takes the document's chunk, at the next position.\<close>

lemma ingest_below_capacity_example:
  "ingest index_caps_example 5 \<lparr> chunks = [chunk_example], rag_max_index_size = 2 \<rparr>
     document_example [''AI''] =
   (Inr [1], \<lparr> chunks = [chunk_example, make_chunk index_caps_example 5 document_example [''AI'']
                                 ''what is in document X''], rag_max_index_size = 2 \<rparr>)"
  by (simp add: ingest_def index_caps_example_def document_example_def Let_def)

end
